theory Spec2Isabelle
  imports Complex_Main "HOL-Library.Char_ord" "HOL-Library.List_Lexorder" "HOL-Library.AList" "HOL-Library.Option_ord"
begin

section \<open>LottoGen: historical-draw acquisition and statistics engine\<close>

text \<open>
  A shallow embedding of the core of \<^verbatim>\<open>src/LottoGen.py\<close>: the statistics engine
  (\<^verbatim>\<open>compute_stats\<close>), the weighting model (\<^verbatim>\<open>smart_weight\<close>), the biased line sampler
  (\<^verbatim>\<open>smart_pick\<close>), the top-probability selector (\<^verbatim>\<open>top_probability_line\<close>), the date
  normalizer, the two page parsers, the deduplicator and the fallback fetcher.

  Python's unbounded integers are \<open>int\<close>, \<^verbatim>\<open>None\<close> is \<open>None\<close> of an option type, an
  exception raised by the source is a value \<open>Inl e\<close> of a sum type.  A Python float is the
  rational number it denotes (\<open>rat\<close>); the arithmetic of the weighting model is that of
  IEEE 754 double precision, each operation returning its exact result rounded to the
  nearest float.
\<close>

subsection \<open>Python exceptions and list primitives\<close>

datatype py_error = IndexError | KeyError | TypeError | ValueError

text \<open>
  \<^verbatim>\<open>xs[i]\<close>: a negative index counts from the end; outside \<open>-len..len-1\<close> the
  access raises \<^verbatim>\<open>IndexError\<close>.  \<open>py_index n i\<close> is the position addressed in a list of
  length \<open>n\<close>.
\<close>

definition py_index :: "nat \<Rightarrow> int \<Rightarrow> nat option" where
  "py_index n i =
     (if 0 \<le> i \<and> i < int n then Some (nat i)
      else if i < 0 \<and> - int n \<le> i then Some (nat (int n + i))
      else None)"

text \<open>
  The slice bound of \<^verbatim>\<open>xs[i:]\<close> and \<^verbatim>\<open>xs[:i]\<close>: negative bounds count from the end and
  every bound is clamped to \<open>0..len\<close>; slices never raise.
\<close>

definition py_bound :: "nat \<Rightarrow> int \<Rightarrow> nat" where
  "py_bound n i = (if i < 0 then nat (int n + i) else min n (nat i))"

definition py_slice_from :: "'a list \<Rightarrow> int \<Rightarrow> 'a list" where
  "py_slice_from xs i = drop (py_bound (length xs) i) xs"

definition py_slice_to :: "'a list \<Rightarrow> int \<Rightarrow> 'a list" where
  "py_slice_to xs i = take (py_bound (length xs) i) xs"

text \<open>\<^verbatim>\<open>[v] * n\<close>: the empty list when \<open>n \<le> 0\<close>.\<close>

definition py_repeat :: "'a \<Rightarrow> int \<Rightarrow> 'a list" where
  "py_repeat v n = replicate (nat n) v"

text \<open>\<^verbatim>\<open>range(1, n + 1)\<close>.\<close>

definition range1 :: "int \<Rightarrow> int list" where
  "range1 n = [1..n]"

text \<open>
  \<^verbatim>\<open>sorted(xs, key=k)\<close> is a stable ascending sort, as \<open>sort_key\<close> is;
  \<^verbatim>\<open>sorted(xs, key=k, reverse=True)\<close> is a stable descending sort (elements with equal keys
  keep their original order), which is a stable ascending sort on the negated key.
\<close>

definition sorted_desc :: "('a \<Rightarrow> 'k::{linorder,uminus}) \<Rightarrow> 'a list \<Rightarrow> 'a list" where
  "sorted_desc k xs = sort_key (\<lambda>x. - k x) xs"

subsection \<open>Data model\<close>

text \<open>
  A draw is the tuple \<^verbatim>\<open>(date, main, bonus)\<close>; the date is an ISO string or \<^verbatim>\<open>None\<close>, the
  bonus an integer or \<^verbatim>\<open>None\<close>.
\<close>

type_synonym draw = "string option \<times> int list \<times> int option"

text \<open>
  The dictionary returned by \<^verbatim>\<open>compute_stats\<close>.  The empty dictionary \<^verbatim>\<open>{}\<close> it
  returns for an empty draw list is \<open>None\<close> of \<open>stats option\<close>.
\<close>

record stats =
  freq :: "int list"
  last_seen :: "int option list"
  hot :: "(int \<times> int) list"
  cold :: "(int \<times> int) list"
  overdue :: "(int \<times> int) list"
  sample_size :: int

subsection \<open>Statistics engine\<close>

text \<open>
  The inner loop \<^verbatim>\<open>for n in main: freq[n] += 1; last_seen[n] = i\<close>.  Both lists have the
  same length; the first subscript raises before the second is reached.
\<close>

fun count_main :: "int list \<Rightarrow> int \<Rightarrow> int list \<times> int option list \<Rightarrow>
    py_error + (int list \<times> int option list)" where
  "count_main [] i (f, l) = Inr (f, l)"
| "count_main (n # ns) i (f, l) =
     (case py_index (length f) n of
        None \<Rightarrow> Inl IndexError
      | Some k \<Rightarrow>
          (case py_index (length l) n of
             None \<Rightarrow> Inl IndexError
           | Some k' \<Rightarrow> count_main ns i (f[k := f ! k + 1], l[k' := Some i])))"

text \<open>The outer loop \<^verbatim>\<open>for d, main, bonus in draws: i += 1; ...\<close>.\<close>

fun count_draws :: "draw list \<Rightarrow> int \<Rightarrow> int list \<times> int option list \<Rightarrow>
    py_error + (int \<times> int list \<times> int option list)" where
  "count_draws [] i (f, l) = Inr (i, f, l)"
| "count_draws ((d, main, bonus) # ds) i (f, l) =
     (case count_main main (i + 1) (f, l) of
        Inl e \<Rightarrow> Inl e
      | Inr fl \<Rightarrow> count_draws ds (i + 1) fl)"

text \<open>The recency gap \<^verbatim>\<open>(cur - last_seen[n]) if last_seen[n] is not None else cur\<close>.\<close>

definition gap :: "int \<Rightarrow> int option list \<Rightarrow> int \<Rightarrow> int" where
  "gap cur l n = (case l ! nat n of None \<Rightarrow> cur | Some j \<Rightarrow> cur - j)"

text \<open>
  \<^verbatim>\<open>if lookback: draws = draws[-lookback:]\<close>: \<^verbatim>\<open>None\<close> and \<open>0\<close> are falsy and leave the
  list as it is.
\<close>

definition analysed :: "draw list \<Rightarrow> int option \<Rightarrow> draw list" where
  "analysed draws lookback =
     (case lookback of
        None \<Rightarrow> draws
      | Some lb \<Rightarrow> if lb = 0 then draws else py_slice_from draws (- lb))"

definition compute_stats :: "draw list \<Rightarrow> int \<Rightarrow> int \<Rightarrow> int option \<Rightarrow> py_error + stats option" where
  "compute_stats draws max_n count lookback =
     (if draws = [] then Inr None
      else
        let draws' = analysed draws lookback
        in case count_draws draws' 0 (py_repeat 0 (max_n + 1), py_repeat None (max_n + 1)) of
             Inl e \<Rightarrow> Inl e
           | Inr (i, f, l) \<Rightarrow>
               let cur = i + 1;
                   overdue0 = map (\<lambda>n. (n, gap cur l n)) (range1 max_n);
                   overdue1 = sorted_desc snd overdue0;
                   hot1 = sorted_desc snd (map (\<lambda>n. (n, f ! nat n)) (range1 max_n));
                   cold1 = sort_key snd (map (\<lambda>n. (n, f ! nat n)) (range1 max_n))
               in Inr (Some \<lparr>freq = f, last_seen = l, hot = hot1, cold = cold1,
                              overdue = overdue1, sample_size = i\<rparr>))"


subsection \<open>Floating-point numbers\<close>

text \<open>
  A finite float is a number \<open>m * 2^e\<close> with \<open>\<bar>m\<bar> < 2^53\<close> and \<open>- 1074 \<le> e\<close>.  An arithmetic
  operation on floats returns the exact result rounded to the nearest float, a tie going
  to the float with even \<open>m\<close>.  \<open>round_float x\<close> is that float: with
  \<open>2^k \<le> \<bar>x\<bar> < 2^(k+1)\<close> the floats around \<open>x\<close> are the multiples of \<open>2^e\<close>,
  \<open>e = max (k - 52) (- 1074)\<close>.  Results of magnitude \<open>2^1024\<close> and more, where the program
  has \<^verbatim>\<open>inf\<close> or an \<^verbatim>\<open>OverflowError\<close>, are outside the model; no weight exceeds \<open>9/2\<close>.
\<close>

text \<open>The number of binary digits of a positive integer (\<^verbatim>\<open>int.bit_length\<close>).\<close>

function bit_length :: "int \<Rightarrow> nat" where
  "bit_length n = (if n \<le> 0 then 0 else Suc (bit_length (n div 2)))"
  by pat_completeness auto
termination
  by (relation "measure nat") auto

declare bit_length.simps [simp del]

text \<open>The integer nearest to \<open>y\<close>, the even one of the two when \<open>y\<close> is half-way.\<close>

definition round_half_even :: "rat \<Rightarrow> int" where
  "round_half_even y =
     (let f = \<lfloor>y\<rfloor>; r = y - of_int f
      in if r < 1 / 2 then f else if 1 / 2 < r then f + 1
         else if even f then f else f + 1)"

text \<open>For \<open>x > 0\<close>, the \<open>k\<close> with \<open>2^k \<le> x < 2^(k+1)\<close>.\<close>

definition ilog2 :: "rat \<Rightarrow> int" where
  "ilog2 x =
     (case quotient_of x of (p, q) \<Rightarrow>
        let d = int (bit_length p) - int (bit_length q)
        in if 2 powi d \<le> x then d else d - 1)"

definition round_float :: "rat \<Rightarrow> rat" where
  "round_float x =
     (if x = 0 then 0
      else let e = max (ilog2 \<bar>x\<bar> - 52) (- 1074)
           in sgn x * of_int (round_half_even (\<bar>x\<bar> / 2 powi e)) * 2 powi e)"

text \<open>
  Float addition and multiplication, and the true division \<^verbatim>\<open>a / b\<close> of two integers,
  which Python rounds correctly from the exact quotient.
\<close>

definition float_add :: "rat \<Rightarrow> rat \<Rightarrow> rat" where
  "float_add a b = round_float (a + b)"

definition float_mul :: "rat \<Rightarrow> rat \<Rightarrow> rat" where
  "float_mul a b = round_float (a * b)"

definition true_div :: "int \<Rightarrow> int \<Rightarrow> rat" where
  "true_div a b = round_float (of_int a / of_int b)"

subsection \<open>Weighting model\<close>

text \<open>
  The dictionary comprehension \<^verbatim>\<open>{n: i+1 for i, (n, _) in enumerate(ranking)}\<close>: entries are
  written in list order into an initially empty dictionary, a later entry for the same key
  overwriting the earlier one.  The dictionary is an association list with distinct keys;
  \<^verbatim>\<open>len\<close> is its length and \<^verbatim>\<open>d[n]\<close> is \<open>map_of\<close>, raising \<^verbatim>\<open>KeyError\<close> on \<open>None\<close>.
\<close>

definition rank_dict :: "(int \<times> int) list \<Rightarrow> (int \<times> int) list" where
  "rank_dict ranking =
     fold (\<lambda>(i, (n, _)) d. AList.update n (int i + 1) d) (enumerate 0 ranking) []"

text \<open>
  The rank score \<^verbatim>\<open>(len(rank) + 1 - rank[n]) / len(rank)\<close>, for \<^verbatim>\<open>rank[n] = r\<close>: a true
  division of integers.  (The dictionary is not empty where the score is computed: the
  lookup \<^verbatim>\<open>rank[n]\<close> comes first.)
\<close>

definition score :: "(int \<times> int) list \<Rightarrow> int \<Rightarrow> rat" where
  "score d r = true_div (int (length d) + 1 - r) (int (length d))"

text \<open>
  The flavor-dependent amount added to the base weight: \<^verbatim>\<open>2.0*hr + 0.5*orank\<close>,
  \<^verbatim>\<open>2.0*orank + 0.5*hr\<close> or \<^verbatim>\<open>1.0*hr + 1.0*orank\<close>.
\<close>

definition flavor_bonus :: "string \<Rightarrow> rat \<Rightarrow> rat \<Rightarrow> rat" where
  "flavor_bonus flavor hr orank =
     (if flavor = ''hot'' then float_add (float_mul 2 hr) (float_mul (1 / 2) orank)
      else if flavor = ''overdue'' then float_add (float_mul 2 orank) (float_mul (1 / 2) hr)
      else float_add (float_mul 1 hr) (float_mul 1 orank))"

text \<open>
  The loop \<^verbatim>\<open>for n in range(1, max_n+1)\<close> of \<^verbatim>\<open>smart_weight\<close>; \<^verbatim>\<open>hot_rank[n]\<close> is looked up
  before \<^verbatim>\<open>overdue_rank[n]\<close>; \<^verbatim>\<open>base[n] += x\<close> is a float addition.
\<close>

fun weight_loop :: "(int \<times> int) list \<Rightarrow> (int \<times> int) list \<Rightarrow> string \<Rightarrow> int list \<Rightarrow> rat list \<Rightarrow>
    py_error + rat list" where
  "weight_loop hot_rank overdue_rank flavor [] base = Inr base"
| "weight_loop hot_rank overdue_rank flavor (n # ns) base =
     (case map_of hot_rank n of
        None \<Rightarrow> Inl KeyError
      | Some h \<Rightarrow>
          (case map_of overdue_rank n of
             None \<Rightarrow> Inl KeyError
           | Some v \<Rightarrow>
               (case py_index (length base) n of
                  None \<Rightarrow> Inl IndexError
                | Some k \<Rightarrow>
                    weight_loop hot_rank overdue_rank flavor ns
                      (base[k := float_add (base ! k)
                         (flavor_bonus flavor (score hot_rank h) (score overdue_rank v))]))))"

text \<open>
  \<^verbatim>\<open>smart_weight(stats, max_n, flavor)\<close>.  On the empty dictionary \<^verbatim>\<open>{}\<close> the subscript
  \<^verbatim>\<open>stats["hot"]\<close> raises \<^verbatim>\<open>KeyError\<close>.
\<close>

definition smart_weight :: "stats option \<Rightarrow> int \<Rightarrow> string \<Rightarrow> py_error + rat list" where
  "smart_weight st max_n flavor =
     (case st of
        None \<Rightarrow> Inl KeyError
      | Some s \<Rightarrow>
          weight_loop (rank_dict (hot s)) (rank_dict (overdue s)) flavor (range1 max_n)
            (py_repeat 1 (max_n + 1)))"

subsection \<open>Top-probability selector\<close>

definition top_probability_line :: "stats option \<Rightarrow> int \<Rightarrow> int \<Rightarrow> string \<Rightarrow> py_error + int list" where
  "top_probability_line st max_n count flavor =
     (case smart_weight st max_n flavor of
        Inl e \<Rightarrow> Inl e
      | Inr base \<Rightarrow>
          let ranking = sorted_desc (\<lambda>n. base ! nat n) (range1 max_n)
          in Inr (sort (py_slice_to ranking count)))"

subsection \<open>Biased line sampler\<close>

text \<open>
  \<^verbatim>\<open>random.choices(population, weights=ws, k=1)[0]\<close> of the standard library, with the
  value \<open>r\<close> of its call of \<^verbatim>\<open>random()\<close> (a number in \<open>[0, 1)\<close>) as a parameter:
  \<^verbatim>\<open>
  cum_weights = list(accumulate(weights))
  if len(cum_weights) != n: raise ValueError
  total = cum_weights[-1] + 0.0
  if total <= 0.0: raise ValueError
  hi = n - 1
  return population[bisect(cum_weights, random() * total, 0, hi)]
  \<close>
  and \<^verbatim>\<open>bisect\<close> is \<^verbatim>\<open>bisect_right\<close>:
  \<^verbatim>\<open>
  while lo < hi:
      mid = (lo + hi) // 2
      if x < a[mid]: hi = mid
      else: lo = mid + 1
  return lo
  \<close>
  The running sums and the product \<^verbatim>\<open>random() * total\<close> are the exact ones here, so
  \<open>r * total < total\<close> for every \<open>r < 1\<close>; what is stated below about the sampler is stated
  for every supply of values of \<^verbatim>\<open>random()\<close>.
\<close>

fun accumulate_from :: "rat \<Rightarrow> rat list \<Rightarrow> rat list" where
  "accumulate_from acc [] = []"
| "accumulate_from acc (w # ws) = (acc + w) # accumulate_from (acc + w) ws"

definition accumulate :: "rat list \<Rightarrow> rat list" where
  "accumulate ws = accumulate_from 0 ws"

function bisect_right :: "rat list \<Rightarrow> rat \<Rightarrow> nat \<Rightarrow> nat \<Rightarrow> nat" where
  "bisect_right a x lo hi =
     (if lo < hi then
        let mid = (lo + hi) div 2
        in if x < a ! mid then bisect_right a x lo mid else bisect_right a x (mid + 1) hi
      else lo)"
  by pat_completeness auto
termination
  by (relation "measure (\<lambda>(a, x, lo, hi). hi - lo)") auto

declare bisect_right.simps [simp del]

definition choices :: "int list \<Rightarrow> rat list \<Rightarrow> rat \<Rightarrow> py_error + int" where
  "choices population weights r =
     (let n = length population; cum_weights = accumulate weights
      in if length cum_weights \<noteq> n then Inl ValueError
         else if cum_weights = [] then Inl IndexError
         else
           let total = last cum_weights
           in if total \<le> 0 then Inl ValueError
              else Inr (population ! bisect_right cum_weights (r * total) 0 (n - 1)))"

text \<open>
  The loop \<^verbatim>\<open>while len(picks) < count\<close> of \<^verbatim>\<open>smart_pick\<close>.  Each iteration consumes one
  value of \<^verbatim>\<open>random()\<close>, taken from the list \<open>rs\<close>; the result is \<open>None\<close> when the loop is
  still running after the last supplied value.  The set \<^verbatim>\<open>picks\<close> is a list without
  duplicates.  Beside the final \<^verbatim>\<open>picks\<close> the loop returns its trace: for every iteration
  executed, the number selected and the weight that number had when it was selected.
\<close>

fun pick_loop :: "rat list \<Rightarrow> int \<Rightarrow> int \<Rightarrow> rat list \<Rightarrow> int list \<Rightarrow> (int \<times> rat) list \<Rightarrow>
    (py_error + int list \<times> (int \<times> rat) list) option" where
  "pick_loop [] max_n count base picks trace =
     (if int (length picks) < count then None else Some (Inr (picks, trace)))"
| "pick_loop (r # rs) max_n count base picks trace =
     (if int (length picks) < count then
        (case choices (range1 max_n) (py_slice_from base 1) r of
           Inl e \<Rightarrow> Some (Inl e)
         | Inr i \<Rightarrow>
             (case py_index (length base) i of
                None \<Rightarrow> Some (Inl IndexError)
              | Some k \<Rightarrow>
                  pick_loop rs max_n count (base[k := 0]) (List.insert i picks)
                    (trace @ [(i, base ! k)])))
      else Some (Inr (picks, trace)))"

definition smart_pick :: "rat list \<Rightarrow> stats option \<Rightarrow> int \<Rightarrow> int \<Rightarrow> string \<Rightarrow>
    (py_error + int list) option" where
  "smart_pick rs st max_n count flavor =
     (case smart_weight st max_n flavor of
        Inl e \<Rightarrow> Some (Inl e)
      | Inr base \<Rightarrow>
          (case pick_loop rs max_n count base [] [] of
             None \<Rightarrow> None
           | Some (Inl e) \<Rightarrow> Some (Inl e)
           | Some (Inr (picks, trace)) \<Rightarrow> Some (Inr (sort picks))))"

subsection \<open>Orders and rankings used in the statements\<close>

text \<open>
  The order produced by a stable sort on key \<open>f\<close> of a list that was ordered by \<open>R\<close>:
  ascending key, elements of equal key in their \<open>R\<close> order.
\<close>

definition key_then :: "('a \<Rightarrow> 'k::linorder) \<Rightarrow> ('a \<Rightarrow> 'a \<Rightarrow> bool) \<Rightarrow> 'a \<Rightarrow> 'a \<Rightarrow> bool" where
  "key_then f R a b = (f a < f b \<or> (f a = f b \<and> R a b))"

text \<open>
  A ranking (a list of pairs whose first components are the ranked numbers) covers
  \<open>1..max_n\<close>: no number is listed twice and each of \<open>1..max_n\<close> is listed.
\<close>

definition covers :: "(int \<times> int) list \<Rightarrow> int \<Rightarrow> bool" where
  "covers ranking max_n =
     (distinct (map fst ranking) \<and> list_all (\<lambda>n. n \<in> set (map fst ranking)) (range1 max_n))"

text \<open>
  The order of the top-probability ranking on a weight vector: greater weight first,
  numbers of equal weight smaller first.
\<close>

definition ranks_before :: "rat list \<Rightarrow> int \<Rightarrow> int \<Rightarrow> bool" where
  "ranks_before base a b =
     (base ! nat b < base ! nat a \<or> (base ! nat a = base ! nat b \<and> a < b))"

text \<open>
  The place (1 for the first) of number \<open>n\<close> in a ranking, as \<^verbatim>\<open>smart_weight\<close> reads it
  from the dictionaries \<^verbatim>\<open>hot_rank\<close> and \<^verbatim>\<open>overdue_rank\<close>.
\<close>

definition place :: "(int \<times> int) list \<Rightarrow> int \<Rightarrow> int" where
  "place ranking n = the (map_of (rank_dict ranking) n)"

text \<open>
  For two numbers of a snapshot: \<open>hot_lead s a b\<close>, the number of places by which \<open>a\<close>
  stands before \<open>b\<close> in the hot ranking; \<open>gap_ties s a b\<close>, how many of the numbers
  \<open>b, \<dots>, a - 1\<close> have the recency gap of \<open>a\<close> (none when \<open>a \<le> b\<close>).
\<close>

definition hot_lead :: "stats \<Rightarrow> int \<Rightarrow> int \<Rightarrow> int" where
  "hot_lead s a b = place (hot s) b - place (hot s) a"

definition gap_ties :: "stats \<Rightarrow> int \<Rightarrow> int \<Rightarrow> int" where
  "gap_ties s a b =
     int (length (filter (\<lambda>n. map_of (overdue s) n = map_of (overdue s) a) [b..a - 1]))"

subsection \<open>Text: characters, regular expressions, string primitives\<close>

text \<open>
  A Python string is a list of characters.  The model covers the code points \<open>0..255\<close>
  (an Isabelle \<open>char\<close>), with the classes Python's \<^verbatim>\<open>re\<close> and \<^verbatim>\<open>str\<close> give these code
  points on \<^verbatim>\<open>str\<close> patterns: \<^verbatim>\<open>\d\<close> is a decimal digit (only \<open>0-9\<close> below 256), \<^verbatim>\<open>\s\<close>
  and \<^verbatim>\<open>str.strip\<close> use the Unicode whitespace (tab to carriage return, the four
  separators \<open>0x1C-0x1F\<close>, the space, \<open>0x85\<close> and \<open>0xA0\<close>), and \<^verbatim>\<open>\w\<close> (which decides
  \<^verbatim>\<open>\b\<close>) is an alphanumeric character or the underscore.
\<close>

definition code :: "char \<Rightarrow> nat" where
  "code c = of_char c"

definition is_digit :: "char \<Rightarrow> bool" where
  "is_digit c = (48 \<le> code c \<and> code c \<le> 57)"

definition is_space :: "char \<Rightarrow> bool" where
  "is_space c = (code c \<in> set [9, 10, 11, 12, 13, 28, 29, 30, 31, 32, 133, 160])"

definition is_alpha :: "char \<Rightarrow> bool" where
  "is_alpha c =
     ((65 \<le> code c \<and> code c \<le> 90) \<or> (97 \<le> code c \<and> code c \<le> 122)
      \<or> code c \<in> set [170, 181, 186]
      \<or> (192 \<le> code c \<and> code c \<le> 214) \<or> (216 \<le> code c \<and> code c \<le> 246)
      \<or> (248 \<le> code c \<and> code c \<le> 255))"

definition is_word :: "char \<Rightarrow> bool" where
  "is_word c = (is_alpha c \<or> is_digit c \<or> code c \<in> set [178, 179, 185, 188, 189, 190] \<or> code c = 95)"

text \<open>Lower case of a character, as far as it can yield an ASCII letter.\<close>

definition lower :: "char \<Rightarrow> char" where
  "lower c = (if 65 \<le> code c \<and> code c \<le> 90 then char_of (code c + 32) else c)"

datatype cclass = Digit | Space | Range char char

fun in_class :: "cclass \<Rightarrow> char \<Rightarrow> bool" where
  "in_class Digit c = is_digit c"
| "in_class Space c = is_space c"
| "in_class (Range lo hi) c = (code lo \<le> code c \<and> code c \<le> code hi)"

text \<open>
  The regular expressions the program and \<^verbatim>\<open>strptime\<close> use: literals, character classes,
  sequence, alternation, the greedy \<^verbatim>\<open>?\<close>, greedy repetition of a class (\<^verbatim>\<open>\s+\<close> is
  \<open>Rep Space 1 None\<close>, \<^verbatim>\<open>\d{1,2}\<close> is \<open>Rep Digit 1 (Some 2)\<close>), the word boundary \<^verbatim>\<open>\b\<close> and
  named groups.
\<close>

datatype rx =
    Lit string
  | Cls cclass
  | Seq rx rx
  | Alt rx rx
  | Opt rx
  | Rep cclass nat "nat option"
  | WordB
  | Group char rx

text \<open>
  A matcher state: the character before the current position (\<open>None\<close> at the start of
  the string), the text from the current position on, and the groups captured so far.
\<close>

type_synonym mstate = "char option \<times> string \<times> (char \<times> string) list"

definition advance :: "nat \<Rightarrow> mstate \<Rightarrow> mstate" where
  "advance n st =
     (case st of (prev, rest, gs) \<Rightarrow>
        (if n = 0 then prev else Some (last (take n rest)), drop n rest, gs))"

definition at_boundary :: "char option \<Rightarrow> string \<Rightarrow> bool" where
  "at_boundary prev rest =
     ((case prev of None \<Rightarrow> False | Some c \<Rightarrow> is_word c)
        \<noteq> (case rest of [] \<Rightarrow> False | c # _ \<Rightarrow> is_word c))"

text \<open>
  \<open>rx_match ci r st\<close> lists the states in which a match of \<open>r\<close> starting in state \<open>st\<close> can
  end, in the order in which a backtracking matcher tries them (first alternative first,
  longest repetition first): its head is the match Python's \<^verbatim>\<open>re\<close> reports.  \<open>ci\<close> is the
  flag \<^verbatim>\<open>IGNORECASE\<close>.
\<close>

fun rx_match :: "bool \<Rightarrow> rx \<Rightarrow> mstate \<Rightarrow> mstate list" where
  "rx_match ci (Lit s) (prev, rest, gs) =
     (let t = take (length s) rest
      in if length s \<le> length rest \<and> (if ci then map lower t = map lower s else t = s)
         then [advance (length s) (prev, rest, gs)] else [])"
| "rx_match ci (Cls c) (prev, rest, gs) =
     (case rest of
        [] \<Rightarrow> []
      | x # xs \<Rightarrow> if in_class c x then [(Some x, xs, gs)] else [])"
| "rx_match ci (Seq a b) st = concat (map (rx_match ci b) (rx_match ci a st))"
| "rx_match ci (Alt a b) st = rx_match ci a st @ rx_match ci b st"
| "rx_match ci (Opt a) st = rx_match ci a st @ [st]"
| "rx_match ci (Rep c lo hi) (prev, rest, gs) =
     (let k = length (takeWhile (in_class c) rest);
          m = (case hi of None \<Rightarrow> k | Some h \<Rightarrow> min k h)
      in map (\<lambda>n. advance n (prev, rest, gs)) (rev [lo..<Suc m]))"
| "rx_match ci WordB (prev, rest, gs) =
     (if at_boundary prev rest then [(prev, rest, gs)] else [])"
| "rx_match ci (Group g a) (prev, rest, gs) =
     map (\<lambda>(prev', rest', gs'). (prev', rest', gs' @ [(g, take (length rest - length rest') rest)]))
       (rx_match ci a (prev, rest, gs))"

text \<open>\<^verbatim>\<open>re.search(r, s)\<close>: the leftmost match; the result is \<^verbatim>\<open>group(0)\<close>.\<close>

fun search_from :: "rx \<Rightarrow> char option \<Rightarrow> string \<Rightarrow> string option" where
  "search_from r prev [] =
     (case rx_match False r (prev, [], []) of [] \<Rightarrow> None | _ # _ \<Rightarrow> Some [])"
| "search_from r prev (c # cs) =
     (case rx_match False r (prev, c # cs, []) of
        [] \<Rightarrow> search_from r (Some c) cs
      | (_, rest', _) # _ \<Rightarrow> Some (take (length (c # cs) - length rest') (c # cs)))"

definition re_search :: "rx \<Rightarrow> string \<Rightarrow> string option" where
  "re_search r s = search_from r None s"

text \<open>
  \<^verbatim>\<open>re.findall(r, s)\<close> for a pattern without groups that matches no empty string: the
  non-overlapping matches from left to right.  \<open>skip\<close> counts the characters of the
  current match still to be passed.
\<close>

fun findall_from :: "rx \<Rightarrow> char option \<Rightarrow> string \<Rightarrow> nat \<Rightarrow> string list" where
  "findall_from r prev [] skip = []"
| "findall_from r prev (c # cs) skip =
     (if 0 < skip then findall_from r (Some c) cs (skip - 1)
      else
        (case rx_match False r (prev, c # cs, []) of
           [] \<Rightarrow> findall_from r (Some c) cs 0
         | (_, rest', _) # _ \<Rightarrow>
             let n = length (c # cs) - length rest'
             in if n = 0 then findall_from r (Some c) cs 0
                else take n (c # cs) # findall_from r (Some c) cs (n - 1)))"

definition re_findall :: "rx \<Rightarrow> string \<Rightarrow> string list" where
  "re_findall r s = findall_from r None s 0"

text \<open>
  \<^verbatim>\<open>re.split(r, s)\<close> for a pattern that is one capturing group and matches no empty
  string: the pieces between the matches, with the text of each match between them.
  \<open>piece\<close> is the piece collected so far.
\<close>

fun split_from :: "rx \<Rightarrow> char option \<Rightarrow> string \<Rightarrow> nat \<Rightarrow> string \<Rightarrow> string list" where
  "split_from r prev [] skip piece = [piece]"
| "split_from r prev (c # cs) skip piece =
     (if 0 < skip then split_from r (Some c) cs (skip - 1) piece
      else
        (case rx_match False r (prev, c # cs, []) of
           [] \<Rightarrow> split_from r (Some c) cs 0 (piece @ [c])
         | (_, rest', _) # _ \<Rightarrow>
             let n = length (c # cs) - length rest'
             in if n = 0 then split_from r (Some c) cs 0 (piece @ [c])
                else piece # take n (c # cs) # split_from r (Some c) cs (n - 1) []))"

definition re_split :: "rx \<Rightarrow> string \<Rightarrow> string list" where
  "re_split r s = split_from r None s 0 []"

text \<open>\<^verbatim>\<open>s.strip()\<close>.\<close>

definition strip :: "string \<Rightarrow> string" where
  "strip s = rev (dropWhile is_space (rev (dropWhile is_space s)))"

text \<open>
  \<^verbatim>\<open>int(s)\<close> on a string: surrounding whitespace is ignored, the rest must be a non-empty
  run of decimal digits (signs and underscores do not occur in the strings the program
  converts); \<open>None\<close> is \<^verbatim>\<open>ValueError\<close>.
\<close>

definition py_int :: "string \<Rightarrow> int option" where
  "py_int s =
     (let t = strip s
      in if t \<noteq> [] \<and> list_all is_digit t
         then Some (foldl (\<lambda>a c. 10 * a + (int (code c) - 48)) 0 t)
         else None)"

subsection \<open>Date normalizer\<close>

text \<open>
  \<^verbatim>\<open>datetime.strptime(t, fmt).date()\<close> of the standard library, for formats made of the
  directives \<^verbatim>\<open>%A\<close>, \<^verbatim>\<open>%B\<close>, \<^verbatim>\<open>%d\<close>, \<^verbatim>\<open>%Y\<close>, whitespace and literal characters, in the
  C locale.  The library turns the format into a regular expression (a run of whitespace
  becomes \<^verbatim>\<open>\s+\<close>, a directive becomes a named group: the names of the weekdays or months
  longest first, \<^verbatim>\<open>3[0-1]|[1-2]\d|0[1-9]|[1-9]| [1-9]\<close> for \<^verbatim>\<open>%d\<close>, \<^verbatim>\<open>\d\d\d\d\<close> for \<^verbatim>\<open>%Y\<close>),
  matches it with \<^verbatim>\<open>IGNORECASE\<close> at the start of the text, requires the match to end at the
  end of the text, and builds the date from the groups; every failure is \<^verbatim>\<open>ValueError\<close>,
  here \<open>None\<close>.
\<close>

definition f_weekday :: "string list" where
  "f_weekday = [''monday'', ''tuesday'', ''wednesday'', ''thursday'', ''friday'', ''saturday'',
                ''sunday'']"

definition f_month :: "string list" where
  "f_month = ['''', ''january'', ''february'', ''march'', ''april'', ''may'', ''june'', ''july'',
              ''august'', ''september'', ''october'', ''november'', ''december'']"

fun alternatives :: "string list \<Rightarrow> rx" where
  "alternatives [] = Lit []"
| "alternatives [s] = Lit s"
| "alternatives (s # t # ss) = Alt (Lit s) (alternatives (t # ss))"

definition seq_to_re :: "string list \<Rightarrow> char \<Rightarrow> rx" where
  "seq_to_re to_convert directive =
     Group directive (alternatives (sorted_desc (\<lambda>s. int (length s)) to_convert))"

definition directive_rx :: "char \<Rightarrow> rx option" where
  "directive_rx d =
     (if d = CHR ''d'' then
        Some (Group CHR ''d''
          (Alt (Seq (Lit ''3'') (Cls (Range CHR ''0'' CHR ''1'')))
          (Alt (Seq (Cls (Range CHR ''1'' CHR ''2'')) (Cls Digit))
          (Alt (Seq (Lit ''0'') (Cls (Range CHR ''1'' CHR ''9'')))
          (Alt (Cls (Range CHR ''1'' CHR ''9''))
               (Seq (Lit '' '') (Cls (Range CHR ''1'' CHR ''9''))))))))
      else if d = CHR ''Y'' then
        Some (Group CHR ''Y'' (Seq (Cls Digit) (Seq (Cls Digit) (Seq (Cls Digit) (Cls Digit)))))
      else if d = CHR ''A'' then Some (seq_to_re f_weekday CHR ''A'')
      else if d = CHR ''B'' then Some (seq_to_re (tl f_month) CHR ''B'')
      else None)"

fun format_rx :: "string \<Rightarrow> rx option" where
  "format_rx [] = Some (Lit [])"
| "format_rx (c # cs) =
     (if c = CHR ''%'' then
        (case cs of
           [] \<Rightarrow> None
         | d # ds \<Rightarrow>
             (case directive_rx d of
                None \<Rightarrow> None
              | Some r \<Rightarrow> map_option (Seq r) (format_rx ds)))
      else if is_space c then
        (case cs of
           [] \<Rightarrow> Some (Rep Space 1 None)
         | c' # _ \<Rightarrow>
             if is_space c' then format_rx cs
             else map_option (Seq (Rep Space 1 None)) (format_rx cs))
      else map_option (Seq (Lit [c])) (format_rx cs))"

fun index_of :: "'a list \<Rightarrow> 'a \<Rightarrow> nat option" where
  "index_of [] x = None"
| "index_of (y # ys) x = (if y = x then Some 0 else map_option Suc (index_of ys x))"

definition is_leap :: "int \<Rightarrow> bool" where
  "is_leap y = (y mod 4 = 0 \<and> (y mod 100 \<noteq> 0 \<or> y mod 400 = 0))"

definition days_in_month :: "int \<Rightarrow> int \<Rightarrow> int" where
  "days_in_month y m =
     (if m = 2 then (if is_leap y then 29 else 28)
      else if m \<in> set [4, 6, 9, 11] then 30 else 31)"

text \<open>\<^verbatim>\<open>datetime.date(y, m, d)\<close> raises \<^verbatim>\<open>ValueError\<close> outside these bounds.\<close>

definition valid_date :: "int \<Rightarrow> int \<Rightarrow> int \<Rightarrow> bool" where
  "valid_date y m d =
     (1 \<le> y \<and> y \<le> 9999 \<and> 1 \<le> m \<and> m \<le> 12 \<and> 1 \<le> d \<and> d \<le> days_in_month y m)"

definition strptime :: "string \<Rightarrow> string \<Rightarrow> (int \<times> int \<times> int) option" where
  "strptime data_string fmt =
     (case format_rx fmt of
        None \<Rightarrow> None
      | Some r \<Rightarrow>
          (case rx_match True r (None, data_string, []) of
             [] \<Rightarrow> None
           | (_, rest, found) # _ \<Rightarrow>
               if rest \<noteq> [] then None
               else
                 (case (case map_of found CHR ''Y'' of None \<Rightarrow> Some 1900 | Some y \<Rightarrow> py_int y) of
                    None \<Rightarrow> None
                  | Some year \<Rightarrow>
                      (case (case map_of found CHR ''B'' of
                               None \<Rightarrow> Some 1
                             | Some b \<Rightarrow> index_of f_month (map lower b)) of
                         None \<Rightarrow> None
                       | Some month \<Rightarrow>
                           (case (case map_of found CHR ''d'' of None \<Rightarrow> Some 1 | Some d \<Rightarrow> py_int d) of
                              None \<Rightarrow> None
                            | Some day \<Rightarrow>
                                if valid_date year (int month) day
                                then Some (year, int month, day) else None)))))"

text \<open>\<^verbatim>\<open>date.isoformat()\<close>: \<^verbatim>\<open>YYYY-MM-DD\<close>.\<close>

definition digit_char :: "int \<Rightarrow> char" where
  "digit_char n = char_of (48 + nat (n mod 10))"

definition isoformat :: "int \<times> int \<times> int \<Rightarrow> string" where
  "isoformat ymd =
     (case ymd of (y, m, d) \<Rightarrow>
        [digit_char (y div 1000), digit_char (y div 100), digit_char (y div 10), digit_char y]
        @ ''-'' @ [digit_char (m div 10), digit_char m]
        @ ''-'' @ [digit_char (d div 10), digit_char d])"

definition DATE_PATTERNS :: "string list" where
  "DATE_PATTERNS = [''%A %B %d %Y'', ''%A, %B %d, %Y'', ''%B %d, %Y'']"

text \<open>The loop \<^verbatim>\<open>for fmt in DATE_PATTERNS: try: return ... except Exception: pass\<close>.\<close>

fun try_formats :: "string \<Rightarrow> string list \<Rightarrow> string option" where
  "try_formats t [] = None"
| "try_formats t (fmt # fmts) =
     (case strptime t fmt of
        Some ymd \<Rightarrow> Some (isoformat ymd)
      | None \<Rightarrow> try_formats t fmts)"

text \<open>\<^verbatim>\<open>re.sub(r",", "", text)\<close> removes every comma.\<close>

definition try_parse_date :: "string \<Rightarrow> string option" where
  "try_parse_date text = try_formats (strip (filter (\<lambda>c. c \<noteq> CHR '','') text)) DATE_PATTERNS"

subsection \<open>Draw deduplicator\<close>

text \<open>
  \<^verbatim>\<open>dedupe_by_date\<close>: the dictionary \<^verbatim>\<open>uniq\<close> is an association list with distinct keys, in
  insertion order.  \<^verbatim>\<open>sorted(uniq.keys())\<close> compares the keys: as soon as there are two
  keys and one of them is \<^verbatim>\<open>None\<close>, a comparison of \<^verbatim>\<open>None\<close> with a string raises
  \<^verbatim>\<open>TypeError\<close>; a single key is not compared, and strings are ordered by code points.
\<close>

definition dedupe_by_date :: "draw list \<Rightarrow> py_error + draw list" where
  "dedupe_by_date draws =
     (let uniq = fold (\<lambda>(d, main, bonus) u. AList.update d (main, bonus) u) draws [];
          keys = map fst uniq
      in if 2 \<le> length keys \<and> None \<in> set keys then Inl TypeError
         else Inr (map (\<lambda>d. (d, the (map_of uniq d))) (sort keys)))"

subsection \<open>Print-layout parser\<close>

definition month_names :: "string list" where
  "month_names = [''January'', ''February'', ''March'', ''April'', ''May'', ''June'', ''July'',
                  ''August'', ''September'', ''October'', ''November'', ''December'']"

text \<open>\<^verbatim>\<open>(January|February|...|December)\<close>.\<close>

definition month_re :: rx where
  "month_re = alternatives month_names"

text \<open>\<^verbatim>\<open>rf"{month}\s+\d{{1,2}},?\s+\d{{4}}"\<close>; \<open>month\<close> is a month name, a literal.\<close>

definition date_re :: "string \<Rightarrow> rx" where
  "date_re month =
     Seq (Lit month) (Seq (Rep Space 1 None) (Seq (Rep Digit 1 (Some 2))
       (Seq (Opt (Lit '','')) (Seq (Rep Space 1 None) (Rep Digit 4 (Some 4))))))"

text \<open>\<^verbatim>\<open>r"\b\d{1,2}\b"\<close>.\<close>

definition number_re :: rx where
  "number_re = Seq WordB (Seq (Rep Digit 1 (Some 2)) WordB)"

text \<open>\<^verbatim>\<open>[int(n) for n in ns if 1 <= int(n) <= max_n]\<close>.\<close>

fun ints_in_range :: "string list \<Rightarrow> int \<Rightarrow> py_error + int list" where
  "ints_in_range [] max_n = Inr []"
| "ints_in_range (n # ns) max_n =
     (case py_int n of
        None \<Rightarrow> Inl ValueError
      | Some v \<Rightarrow>
          (case ints_in_range ns max_n of
             Inl e \<Rightarrow> Inl e
           | Inr vs \<Rightarrow> Inr (if 1 \<le> v \<and> v \<le> max_n then v # vs else vs)))"

text \<open>
  \<^verbatim>\<open>if len(nums) >= count: main = nums[:count]; bonus = nums[count] if len(nums) > count
  else None\<close>: the record a block or row contributes, if any.
\<close>

definition make_record :: "string option \<Rightarrow> int list \<Rightarrow> int \<Rightarrow> py_error + draw list" where
  "make_record date_iso nums count =
     (if count \<le> int (length nums) then
        (if count < int (length nums) then
           (case py_index (length nums) count of
              None \<Rightarrow> Inl IndexError
            | Some k \<Rightarrow> Inr [(date_iso, py_slice_to nums count, Some (nums ! k))])
         else Inr [(date_iso, py_slice_to nums count, None)])
      else Inr [])"

text \<open>
  The blocks of \<^verbatim>\<open>for i in range(1, len(parts), 2)\<close>: \<^verbatim>\<open>(parts[i], parts[i+1])\<close>, with the
  empty string when \<^verbatim>\<open>parts[i+1]\<close> does not exist.
\<close>

fun blocks_of :: "string list \<Rightarrow> (string \<times> string) list" where
  "blocks_of (month # rest # parts) = (month, rest) # blocks_of parts"
| "blocks_of [month] = [(month, [])]"
| "blocks_of [] = []"

text \<open>The loop body of \<^verbatim>\<open>parse_wclc_print\<close> for one block, and the loop.\<close>

definition parse_block :: "string \<times> string \<Rightarrow> int \<Rightarrow> int \<Rightarrow> py_error + draw list" where
  "parse_block mr max_n count =
     (case mr of (month, rest) \<Rightarrow>
        let block = month @ rest
        in case re_search (date_re month) block of
             None \<Rightarrow> Inr []
           | Some mdate \<Rightarrow>
               let date_iso = try_parse_date mdate
               in case ints_in_range (re_findall number_re block) max_n of
                    Inl e \<Rightarrow> Inl e
                  | Inr nums \<Rightarrow> make_record date_iso nums count)"

fun parse_blocks :: "(string \<times> string) list \<Rightarrow> int \<Rightarrow> int \<Rightarrow> py_error + draw list" where
  "parse_blocks [] max_n count = Inr []"
| "parse_blocks (b # bs) max_n count =
     (case parse_block b max_n count of
        Inl e \<Rightarrow> Inl e
      | Inr ds \<Rightarrow>
          (case parse_blocks bs max_n count of
             Inl e \<Rightarrow> Inl e
           | Inr ds' \<Rightarrow> Inr (ds @ ds')))"

text \<open>
  \<^verbatim>\<open>parse_wclc_print(soup, max_n, count)\<close>; \<open>text\<close> is the page's visible text
  \<^verbatim>\<open>soup.get_text(" ", strip=True)\<close>.
\<close>

definition parse_wclc_print :: "string \<Rightarrow> int \<Rightarrow> int \<Rightarrow> py_error + draw list" where
  "parse_wclc_print text max_n count =
     (case parse_blocks (blocks_of (tl (re_split month_re text))) max_n count of
        Inl e \<Rightarrow> Inl e
      | Inr draws \<Rightarrow> dedupe_by_date draws)"

subsection \<open>Generic table parser\<close>

text \<open>The first cell with a parseable date: \<^verbatim>\<open>for c in cells: ...; if date_iso: break\<close>.\<close>

fun first_date :: "string list \<Rightarrow> string option" where
  "first_date [] = None"
| "first_date (c # cs) =
     (case try_parse_date c of
        None \<Rightarrow> first_date cs
      | Some d \<Rightarrow> if d \<noteq> [] then Some d else first_date cs)"

text \<open>\<^verbatim>\<open>for c in cells: nums += [...]\<close>.\<close>

fun cell_numbers :: "string list \<Rightarrow> int \<Rightarrow> py_error + int list" where
  "cell_numbers [] max_n = Inr []"
| "cell_numbers (c # cs) max_n =
     (case ints_in_range (re_findall number_re c) max_n of
        Inl e \<Rightarrow> Inl e
      | Inr vs \<Rightarrow>
          (case cell_numbers cs max_n of
             Inl e \<Rightarrow> Inl e
           | Inr vs' \<Rightarrow> Inr (vs @ vs')))"

text \<open>\<^verbatim>\<open>for v in nums: if v not in seen: seen.add(v); cleaned.append(v)\<close>.\<close>

fun clean_loop :: "int list \<Rightarrow> int list \<Rightarrow> int list" where
  "clean_loop [] cleaned = cleaned"
| "clean_loop (v # vs) cleaned =
     (if v \<in> set cleaned then clean_loop vs cleaned else clean_loop vs (cleaned @ [v]))"

text \<open>
  The loop body for one row (the texts of its cells) and the loops over rows and tables.
  A document is given by its tables \<^verbatim>\<open>soup.find_all("table")\<close>, a table by its rows
  \<^verbatim>\<open>table.find_all("tr")\<close>, a row by the texts of its cells.
\<close>

definition parse_row :: "string list \<Rightarrow> int \<Rightarrow> int \<Rightarrow> py_error + draw list" where
  "parse_row cells max_n count =
     (if cells = [] then Inr []
      else
        (case first_date cells of
           None \<Rightarrow> Inr []
         | Some date_iso \<Rightarrow>
             (case cell_numbers cells max_n of
                Inl e \<Rightarrow> Inl e
              | Inr nums \<Rightarrow> make_record (Some date_iso) (clean_loop nums []) count)))"

fun parse_rows :: "string list list \<Rightarrow> int \<Rightarrow> int \<Rightarrow> py_error + draw list" where
  "parse_rows [] max_n count = Inr []"
| "parse_rows (r # rs) max_n count =
     (case parse_row r max_n count of
        Inl e \<Rightarrow> Inl e
      | Inr ds \<Rightarrow>
          (case parse_rows rs max_n count of
             Inl e \<Rightarrow> Inl e
           | Inr ds' \<Rightarrow> Inr (ds @ ds')))"

definition parse_generic_tables :: "string list list list \<Rightarrow> int \<Rightarrow> int \<Rightarrow> py_error + draw list" where
  "parse_generic_tables tables max_n count =
     (case parse_rows (concat tables) max_n count of
        Inl e \<Rightarrow> Inl e
      | Inr draws \<Rightarrow> dedupe_by_date draws)"

subsection \<open>Predicates on records and matcher states\<close>

text \<open>
  The data-model invariant of a record's main numbers: exactly \<open>count\<close> of them, each in
  \<open>1..max_n\<close>; and the absence of duplicates among them.
\<close>

definition main_ok :: "int \<Rightarrow> int \<Rightarrow> draw \<Rightarrow> bool" where
  "main_ok max_n count r =
     (case r of (d, main, bonus) \<Rightarrow>
        int (length main) = count \<and> list_all (\<lambda>n. 1 \<le> n \<and> n \<le> max_n) main)"

definition main_distinct :: "draw \<Rightarrow> bool" where
  "main_distinct r = (case r of (d, main, bonus) \<Rightarrow> distinct main)"

text \<open>A matcher state whose remaining text holds no comma.\<close>

definition comma_free :: "mstate \<Rightarrow> bool" where
  "comma_free st = (CHR '','' \<notin> set (fst (snd st)))"

subsection \<open>Source fallback fetcher\<close>

text \<open>
  The configuration table \<^verbatim>\<open>GAMES\<close>: per game the number of main numbers, the largest
  number and the ordered source groups; a group has a label, its URLs and a parser tag.
  (The entry \<^verbatim>\<open>official_info\<close> is not read by the fetcher and is left out.)
\<close>

record source_group =
  g_label :: string
  g_urls :: "string list"
  g_parser :: string

record game_cfg =
  cfg_count :: int
  cfg_max_n :: int
  cfg_sources :: "source_group list"

definition lotto_649 :: game_cfg where
  "lotto_649 = \<lparr>cfg_count = 6, cfg_max_n = 49, cfg_sources =
     [\<lparr>g_label = ''WCLC'', g_urls =
         [''https://www.wclc.com/winning-numbers/lotto-649-extra.htm?channel=print'',
          ''https://www.wclc.com/winning-numbers/lotto-649-extra.htm?channel=print&printMode=true''],
        g_parser = ''wclc''\<rparr>,
      \<lparr>g_label = ''OLG'', g_urls =
         [''https://www.olg.ca/en/lottery/play-lotto-649-encore/past-results.html'',
          ''https://lottery.olg.ca/en-ca/winning-numbers/lotto-6-49''],
        g_parser = ''generic''\<rparr>,
      \<lparr>g_label = ''ALC'', g_urls = [''https://www.alc.ca/content/alc/en/winning-numbers.html''],
        g_parser = ''generic''\<rparr>]\<rparr>"

definition lotto_max :: game_cfg where
  "lotto_max = \<lparr>cfg_count = 7, cfg_max_n = 50, cfg_sources =
     [\<lparr>g_label = ''WCLC'', g_urls =
         [''https://www.wclc.com/winning-numbers/lotto-max-extra.htm?channel=print'',
          ''https://www.wclc.com/winning-numbers/lotto-max-extra.htm?channel=print&printMode=true''],
        g_parser = ''wclc''\<rparr>,
      \<lparr>g_label = ''OLG'', g_urls =
         [''https://www.olg.ca/en/lottery/play-lotto-max-encore/past-results.html'',
          ''https://lottery.olg.ca/en-ca/winning-numbers/lotto-max''],
        g_parser = ''generic''\<rparr>,
      \<lparr>g_label = ''ALC'', g_urls = [''https://www.alc.ca/content/alc/en/winning-numbers.html''],
        g_parser = ''generic''\<rparr>]\<rparr>"

definition GAMES :: "string \<Rightarrow> game_cfg option" where
  "GAMES game_key =
     (if game_key = ''Lotto 6/49'' then Some lotto_649
      else if game_key = ''Lotto Max'' then Some lotto_max
      else None)"

text \<open>
  The world outside the program.  \<open>available\<close>: the imports of \<^verbatim>\<open>requests\<close> and
  \<^verbatim>\<open>BeautifulSoup\<close> succeeded.  \<open>get k url\<close>: what \<^verbatim>\<open>requests.get(url, ...)\<close> does when \<open>k\<close>
  requests were made before in this call: it raises, or returns a status code and a body.
  \<open>html body\<close>: the document \<^verbatim>\<open>BeautifulSoup(body, "html.parser")\<close>, given by its visible
  text and its tables, or \<open>None\<close> when the constructor raises.  \<open>netloc url\<close>:
  \<^verbatim>\<open>urlparse(url).netloc\<close>, or \<open>None\<close> when it raises.  \<open>has_cb\<close>: a progress sink was
  passed; the sink itself does not raise.
\<close>

datatype response = Raises | Response int string

type_synonym soup = "string \<times> string list list list"

record env =
  available :: bool
  get :: "nat \<Rightarrow> string \<Rightarrow> response"
  html :: "string \<Rightarrow> soup option"
  netloc :: "string \<Rightarrow> string option"
  has_cb :: bool

text \<open>
  The progress messages, by their content: \<^verbatim>\<open>[label] Skip url (HTTP status)\<close>,
  \<^verbatim>\<open>[label] Parsed n draws from host\<close>, \<^verbatim>\<open>[label] Error url: e\<close>.
\<close>

datatype event = Skip string string int | Parsed string nat string | Error_msg string string

definition progress :: "env \<Rightarrow> event \<Rightarrow> event list" where
  "progress e ev = (if has_cb e then [ev] else [])"

text \<open>
  The body of \<^verbatim>\<open>for url in group["urls"]\<close>: the records this URL adds to \<^verbatim>\<open>all_draws\<close> and
  the messages sent.  Any exception inside the \<^verbatim>\<open>try\<close> (the request, the document, the
  parser, \<^verbatim>\<open>urlparse\<close> in the message) leaves \<^verbatim>\<open>all_draws\<close> as it was.
\<close>

definition fetch_url :: "env \<Rightarrow> game_cfg \<Rightarrow> source_group \<Rightarrow> nat \<Rightarrow> string \<Rightarrow> draw list \<times> event list" where
  "fetch_url e cfg grp k url =
     (case get e k url of
        Raises \<Rightarrow> ([], progress e (Error_msg (g_label grp) url))
      | Response status_code body \<Rightarrow>
          if status_code \<noteq> 200 then ([], progress e (Skip (g_label grp) url status_code))
          else
            (case html e body of
               None \<Rightarrow> ([], progress e (Error_msg (g_label grp) url))
             | Some sp \<Rightarrow>
                 (case (if g_parser grp = ''wclc''
                        then parse_wclc_print (fst sp) (cfg_max_n cfg) (cfg_count cfg)
                        else parse_generic_tables (snd sp) (cfg_max_n cfg) (cfg_count cfg)) of
                    Inl err \<Rightarrow> ([], progress e (Error_msg (g_label grp) url))
                  | Inr parsed \<Rightarrow>
                      if has_cb e then
                        (case netloc e url of
                           None \<Rightarrow> ([], [Error_msg (g_label grp) url])
                         | Some host \<Rightarrow> (parsed, [Parsed (g_label grp) (length parsed) host]))
                      else (parsed, []))))"

text \<open>
  The loop over the URLs of a group.  The state is \<^verbatim>\<open>all_draws\<close>, the URLs requested so
  far in this call, in order, and the messages sent so far.
\<close>

fun fetch_urls :: "env \<Rightarrow> game_cfg \<Rightarrow> source_group \<Rightarrow> string list \<Rightarrow>
    draw list \<times> string list \<times> event list \<Rightarrow> draw list \<times> string list \<times> event list" where
  "fetch_urls e cfg grp [] st = st"
| "fetch_urls e cfg grp (url # us) (all_draws, requested, evs) =
     (case fetch_url e cfg grp (length requested) url of
        (parsed, ev) \<Rightarrow>
          fetch_urls e cfg grp us (all_draws @ parsed, requested @ [url], evs @ ev))"

text \<open>
  The loop \<^verbatim>\<open>for group in cfg["sources"]\<close>; \<^verbatim>\<open>dedupe_by_date(all_draws)\<close> stands outside the
  \<^verbatim>\<open>try\<close>, so an exception of it leaves the function.  The result comes with the URLs
  requested and the messages sent.
\<close>

fun try_groups :: "env \<Rightarrow> game_cfg \<Rightarrow> source_group list \<Rightarrow> string list \<Rightarrow> event list \<Rightarrow>
    (py_error + draw list \<times> string) \<times> string list \<times> event list" where
  "try_groups e cfg [] requested evs = (Inr ([], ''none''), requested, evs)"
| "try_groups e cfg (grp # groups) requested evs =
     (case fetch_urls e cfg grp (g_urls grp) ([], requested, evs) of
        (all_draws, requested', evs') \<Rightarrow>
          (case dedupe_by_date all_draws of
             Inl err \<Rightarrow> (Inl err, requested', evs')
           | Inr ds \<Rightarrow>
               if ds \<noteq> [] then (Inr (ds, g_label grp), requested', evs')
               else try_groups e cfg groups requested' evs'))"

definition fetch_archives_with_fallback :: "env \<Rightarrow> string \<Rightarrow>
    (py_error + draw list \<times> string) \<times> string list \<times> event list" where
  "fetch_archives_with_fallback e game_key =
     (case GAMES game_key of
        None \<Rightarrow> (Inl KeyError, [], [])
      | Some cfg \<Rightarrow>
          if \<not> available e then (Inr ([], ''offline''), [], [])
          else try_groups e cfg (cfg_sources cfg) [] [])"

text \<open>
  What the claim speaks of.  \<open>group_records\<close>: the records of the URLs of one group, one
  URL after the other, when \<open>n\<close> requests were made before the group is tried;
  \<open>group_yield\<close>: these records deduplicated; \<open>yield_nothing\<close>: each group of the list
  yields no record, the groups tried in order after \<open>n\<close> earlier requests.
\<close>

definition group_records :: "env \<Rightarrow> game_cfg \<Rightarrow> source_group \<Rightarrow> nat \<Rightarrow> draw list" where
  "group_records e cfg grp n =
     concat (map (\<lambda>(k, url). fst (fetch_url e cfg grp k url)) (enumerate n (g_urls grp)))"

definition group_yield :: "env \<Rightarrow> game_cfg \<Rightarrow> source_group \<Rightarrow> nat \<Rightarrow> py_error + draw list" where
  "group_yield e cfg grp n = dedupe_by_date (group_records e cfg grp n)"

fun yield_nothing :: "env \<Rightarrow> game_cfg \<Rightarrow> source_group list \<Rightarrow> nat \<Rightarrow> bool" where
  "yield_nothing e cfg [] n = True"
| "yield_nothing e cfg (grp # groups) n =
     (group_yield e cfg grp n = Inr [] \<and> yield_nothing e cfg groups (n + length (g_urls grp)))"

definition urls_of :: "source_group list \<Rightarrow> string list" where
  "urls_of groups = concat (map g_urls groups)"

subsection \<open>Concrete inputs used below\<close>

definition ex_draws_a :: "draw list" where
  "ex_draws_a = [(Some ''2025-01-01'', [1, 2], Some 3), (Some ''2025-01-04'', [2, 3], None)]"

definition ex_draws_b :: "draw list" where
  "ex_draws_b = [(Some ''2025-01-01'', [1, 2], None), (Some ''2025-01-04'', [2, 3], Some 1)]"

definition c4_draws :: "draw list" where
  "c4_draws = [(Some ''2025-01-01'', [2, 3, 4, 5, 12, 6], None),
               (Some ''2025-01-04'', [1, 2, 3, 4, 5, 12], None),
               (Some ''2025-01-08'', [6, 7, 8, 9, 10, 11], None)]"

definition c4_stats :: stats where
  "c4_stats = \<lparr>freq = [0, 1, 2, 2, 2, 2, 2, 1, 1, 1, 1, 1, 2],
      last_seen = [None, Some 2, Some 2, Some 2, Some 2, Some 2, Some 3, Some 3, Some 3,
                   Some 3, Some 3, Some 3, Some 2],
      hot = [(2, 2), (3, 2), (4, 2), (5, 2), (6, 2), (12, 2), (1, 1), (7, 1), (8, 1), (9, 1),
             (10, 1), (11, 1)],
      cold = [(1, 1), (7, 1), (8, 1), (9, 1), (10, 1), (11, 1), (2, 2), (3, 2), (4, 2), (5, 2),
              (6, 2), (12, 2)],
      overdue = [(1, 2), (2, 2), (3, 2), (4, 2), (5, 2), (12, 2), (6, 1), (7, 1), (8, 1),
                 (9, 1), (10, 1), (11, 1)],
      sample_size = 3\<rparr>"

text \<open>The weights of this snapshot under flavor \<^verbatim>\<open>hot\<close>; \<open>2^51 = 2251799813685248\<close>.\<close>

definition c4_weights :: "rat list" where
  "c4_weights =
     [1, 5 / 2, 7787474355661483 / 2251799813685248, 13 / 4,
      3424612216646315 / 1125899906842624, 3190049736054101 / 1125899906842624,
      2908574759343445 / 1125899906842624, 2298712309803691 / 1125899906842624,
      8256599316845909 / 4503599627370496, 13 / 8, 3190049736054101 / 2251799813685248,
      5441849549739349 / 4503599627370496, 5535674541976235 / 2251799813685248]"

text \<open>
  One draw of two numbers out of \<open>1..6\<close>, its snapshot and the weights under flavor
  \<^verbatim>\<open>balanced\<close>: numbers 2 and 5 have the same weight 2; the weights of 1 and 4, the
  two floats next to \<open>7/3\<close>, differ.
\<close>

definition tie_draws :: "draw list" where
  "tie_draws = [(Some ''2025-01-01'', [1, 2], None)]"

definition tie_stats :: stats where
  "tie_stats = \<lparr>freq = [0, 1, 1, 0, 0, 0, 0],
      last_seen = [None, Some 1, Some 1, None, None, None, None],
      hot = [(1, 1), (2, 1), (3, 0), (4, 0), (5, 0), (6, 0)],
      cold = [(3, 0), (4, 0), (5, 0), (6, 0), (1, 1), (2, 1)],
      overdue = [(3, 2), (4, 2), (5, 2), (6, 2), (1, 1), (2, 1)],
      sample_size = 1\<rparr>"

definition tie_weights :: "rat list" where
  "tie_weights =
     [1, 2627099782632789 / 1125899906842624, 2, 6004799503160661 / 2251799813685248,
      5254199565265579 / 2251799813685248, 2, 3752999689475413 / 2251799813685248]"

definition scenario_page :: string where
  "scenario_page = ''Saturday January 4, 2025 01 05 12 23 34 47 09''"

definition two_draw_page :: string where
  "two_draw_page = ''Saturday January 4, 2025 01 05 12 23 34 47 09 Wednesday January 8, 2025 02 06 13 24 35 48 10''"

definition repeat_page :: string where
  "repeat_page = ''Saturday January 4, 2025 04 05 12 23 34 47 09''"

definition scenario_tables :: "string list list list" where
  "scenario_tables = [[[''Date'', ''Numbers'', ''Bonus''],
                       [''Saturday, January 4, 2025'', ''01 05 12 23 34 47'', ''09'']]]"

text \<open>
  A run of the fetcher: the first request is answered with status 404, the second raises,
  the third returns the table of the scenario, every later one an empty document.
\<close>

definition ex_env :: env where
  "ex_env = \<lparr>available = True,
     get = (\<lambda>k url. if k = 0 then Response 404 ''''
                     else if k = 1 then Raises
                     else if k = 2 then Response 200 ''results''
                     else Response 200 ''''),
     html = (\<lambda>body. if body = ''results'' then Some ('''', scenario_tables) else Some ('''', [])),
     netloc = (\<lambda>url. Some ''host''),
     has_cb = True\<rparr>"

section \<open>Verification\<close>

subsection \<open>Floating-point numbers\<close>

text \<open>
  What is used of rounding below: a non-negative number rounds to a non-negative one, a
  number from 1 on to one from 1 on, and below 4 the rounding error is at most \<open>2^-52\<close>.
\<close>

lemma round_half_even_error: "\<bar>of_int (round_half_even y) - y\<bar> \<le> 1 / 2"
proof -
  have "of_int \<lfloor>y\<rfloor> \<le> y" "y < of_int \<lfloor>y\<rfloor> + 1" by linarith+
  then show ?thesis by (auto simp: round_half_even_def Let_def)
qed

lemma round_half_even_ge: "of_int k \<le> y \<Longrightarrow> k \<le> round_half_even y"
proof -
  assume "of_int k \<le> y"
  then have "k \<le> \<lfloor>y\<rfloor>" by (simp add: le_floor_iff)
  then show ?thesis by (auto simp: round_half_even_def Let_def)
qed

lemma bit_length_bounds:
  assumes "0 < n"
  shows "2 ^ (bit_length n - 1) \<le> n" and "n < 2 ^ bit_length n" and "1 \<le> bit_length n"
proof -
  have "0 < n \<longrightarrow> 2 ^ (bit_length n - 1) \<le> n \<and> n < 2 ^ bit_length n \<and> 1 \<le> bit_length n"
  proof (induction n rule: bit_length.induct)
    case (1 n)
    show ?case
    proof
      assume n: "0 < n"
      then have s: "bit_length n = Suc (bit_length (n div 2))"
        by (subst bit_length.simps) simp
      show "2 ^ (bit_length n - 1) \<le> n \<and> n < 2 ^ bit_length n \<and> 1 \<le> bit_length n"
      proof (cases "n div 2 = 0")
        case True
        then have "n = 1" using n by linarith
        moreover have "bit_length 0 = 0" by (subst bit_length.simps) simp
        ultimately show ?thesis using s True by simp
      next
        case False
        then have h: "0 < n div 2" using n by linarith
        have ih: "2 ^ (bit_length (n div 2) - 1) \<le> n div 2" "n div 2 < 2 ^ bit_length (n div 2)"
          "1 \<le> bit_length (n div 2)"
          using 1 n h by auto
        obtain k where k: "bit_length (n div 2) = Suc k" using ih(3) by (cases "bit_length (n div 2)") auto
        have "2 ^ k \<le> n div 2" "n div 2 < 2 * 2 ^ k" using ih(1,2) by (simp_all add: k)
        then have "2 * 2 ^ k \<le> n" "n < 2 * (2 * 2 ^ k)" by linarith+
        then show ?thesis by (simp add: s k)
      qed
    qed
  qed
  then show "2 ^ (bit_length n - 1) \<le> n" and "n < 2 ^ bit_length n" and "1 \<le> bit_length n"
    using assms by auto
qed

lemma ilog2_bounds:
  assumes "0 < x"
  shows "2 powi (ilog2 x) \<le> x" and "x < 2 powi (ilog2 x + 1)"
proof -
  obtain p q where pq: "quotient_of x = (p, q)" by (cases "quotient_of x")
  have q: "0 < q" using pq by (rule quotient_of_denom_pos)
  have x: "x = of_int p / of_int q" using pq by (rule quotient_of_div)
  have p: "0 < p" using assms q unfolding x by (simp add: zero_less_divide_iff)
  define bp where "bp = bit_length p"
  define bq where "bq = bit_length q"
  have fp: "2 ^ (bp - 1) \<le> p" "p < 2 ^ bp" and bp1: "1 \<le> bp"
    using bit_length_bounds[OF p] unfolding bp_def by auto
  have fq: "2 ^ (bq - 1) \<le> q" "q < 2 ^ bq" and bq1: "1 \<le> bq"
    using bit_length_bounds[OF q] unfolding bq_def by auto
  have P: "(2::rat) ^ (bp - 1) \<le> of_int p" "(of_int p :: rat) < 2 ^ bp"
  proof -
    have "(of_int (2 ^ (bp - 1)) :: rat) \<le> of_int p" using fp(1) by (simp only: of_int_le_iff)
    then show "(2::rat) ^ (bp - 1) \<le> of_int p" by simp
    have "(of_int p :: rat) < of_int (2 ^ bp)" using fp(2) by (simp only: of_int_less_iff)
    then show "(of_int p :: rat) < 2 ^ bp" by simp
  qed
  have Q: "(2::rat) ^ (bq - 1) \<le> of_int q" "(of_int q :: rat) < 2 ^ bq"
  proof -
    have "(of_int (2 ^ (bq - 1)) :: rat) \<le> of_int q" using fq(1) by (simp only: of_int_le_iff)
    then show "(2::rat) ^ (bq - 1) \<le> of_int q" by simp
    have "(of_int q :: rat) < of_int (2 ^ bq)" using fq(2) by (simp only: of_int_less_iff)
    then show "(of_int q :: rat) < 2 ^ bq" by simp
  qed
  define d where "d = int bp - int bq"
  have qpos: "0 < (of_int q :: rat)" using q by simp
  have ppos: "0 < (of_int p :: rat)" using p by simp
  have up: "x < 2 powi (d + 1)"
  proof -
    have "d + 1 = int bp - int (bq - 1)" using bq1 by (simp add: d_def)
    then have "(2::rat) powi (d + 1) = 2 ^ bp / 2 ^ (bq - 1)"
      by (simp add: power_int_diff)
    moreover have "of_int p / of_int q < (2::rat) ^ bp / 2 ^ (bq - 1)"
    proof -
      have "of_int p / of_int q < (2::rat) ^ bp / of_int q"
        using P(2) qpos by (simp add: divide_strict_right_mono)
      also have "\<dots> \<le> 2 ^ bp / 2 ^ (bq - 1)"
        using Q(1) by (simp add: frac_le)
      finally show ?thesis .
    qed
    ultimately show ?thesis unfolding x by simp
  qed
  have lo: "2 powi (d - 1) \<le> x"
  proof -
    have "d - 1 = int (bp - 1) - int bq" using bp1 by (simp add: d_def)
    then have "(2::rat) powi (d - 1) = 2 ^ (bp - 1) / 2 ^ bq"
      by (simp add: power_int_diff)
    moreover have "(2::rat) ^ (bp - 1) / 2 ^ bq \<le> of_int p / of_int q"
    proof -
      have "(2::rat) ^ (bp - 1) / 2 ^ bq \<le> of_int p / 2 ^ bq"
        using P(1) by (simp add: divide_right_mono)
      also have "\<dots> \<le> of_int p / of_int q"
        using Q(2) qpos ppos by (simp add: frac_le)
      finally show ?thesis .
    qed
    ultimately show ?thesis unfolding x by simp
  qed
  have e: "ilog2 x = (if 2 powi d \<le> x then d else d - 1)"
    by (simp add: ilog2_def pq Let_def d_def bp_def bq_def)
  show "2 powi (ilog2 x) \<le> x" using lo by (simp add: e)
  show "x < 2 powi (ilog2 x + 1)" using up by (auto simp: e)
qed

lemma round_float_nonneg:
  assumes "0 \<le> x"
  shows "0 \<le> round_float x"
proof (cases "x = 0")
  case True
  then show ?thesis by (simp add: round_float_def)
next
  case False
  then have x: "0 < x" using assms by simp
  define e where "e = max (ilog2 \<bar>x\<bar> - 52) (- 1074)"
  have r: "round_float x = of_int (round_half_even (x / 2 powi e)) * 2 powi e"
    using x by (simp add: round_float_def Let_def e_def)
  have "(of_int 0 :: rat) \<le> x / 2 powi e" using x by (simp add: zero_le_power_int)
  then have "0 \<le> round_half_even (x / 2 powi e)" by (rule round_half_even_ge)
  then show ?thesis unfolding r by (simp add: zero_le_power_int)
qed

lemma round_float_ge_one:
  assumes "1 \<le> x"
  shows "1 \<le> round_float x"
proof -
  have x: "0 < x" using assms by simp
  have l: "0 \<le> ilog2 x"
  proof (rule ccontr)
    assume "\<not> 0 \<le> ilog2 x"
    then have "ilog2 x + 1 \<le> 0" by simp
    then have "(2::rat) powi (ilog2 x + 1) \<le> 2 powi 0" by (intro power_int_increasing) simp_all
    then show False using ilog2_bounds(2)[OF x] assms by simp
  qed
  define e where "e = ilog2 x - 52"
  have m: "max (ilog2 x - 52) (- 1074) = e" using l by (simp add: e_def)
  have r: "round_float x = of_int (round_half_even (x / 2 powi e)) * 2 powi e"
    using x by (simp add: round_float_def Let_def m)
  have pe: "(0::rat) < 2 powi e" by (simp add: zero_less_power_int)
  have "(2::rat) powi (ilog2 x) = 2 powi 52 * 2 powi e"
    by (simp add: e_def power_int_diff)
  then have "2 powi 52 * 2 powi e \<le> x" using ilog2_bounds(1)[OF x] by simp
  then have "(2::rat) powi 52 \<le> x / 2 powi e" using pe by (simp add: pos_le_divide_eq)
  then have "(of_int (2 ^ 52) :: rat) \<le> x / 2 powi e" by simp
  then have "2 ^ 52 \<le> round_half_even (x / 2 powi e)" by (rule round_half_even_ge)
  then have "(of_int (2 ^ 52) :: rat) \<le> of_int (round_half_even (x / 2 powi e))"
    by (simp only: of_int_le_iff)
  then have "(2::rat) powi 52 * 2 powi e \<le> round_float x"
    unfolding r using pe by (simp add: mult_right_mono)
  moreover have "(1::rat) \<le> 2 powi (ilog2 x)" using l by (intro one_le_power_int) simp_all
  moreover have "(2::rat) powi (ilog2 x) = 2 powi 52 * 2 powi e"
    by (simp add: e_def power_int_diff)
  ultimately show ?thesis by simp
qed

lemma round_float_error:
  assumes "0 \<le> x" and "x < 4"
  shows "\<bar>round_float x - x\<bar> \<le> 1 / 2 ^ 52"
proof (cases "x = 0")
  case True
  then show ?thesis by (simp add: round_float_def)
next
  case False
  then have x: "0 < x" using assms by simp
  define e where "e = max (ilog2 \<bar>x\<bar> - 52) (- 1074)"
  have r: "round_float x = of_int (round_half_even (x / 2 powi e)) * 2 powi e"
    using x by (simp add: round_float_def Let_def e_def)
  have pe: "(0::rat) < 2 powi e" by (simp add: zero_less_power_int)
  have l: "ilog2 x \<le> 1"
  proof (rule ccontr)
    assume "\<not> ilog2 x \<le> 1"
    then have "2 \<le> ilog2 x" by simp
    then have "(2::rat) powi 2 \<le> 2 powi (ilog2 x)" by (intro power_int_increasing) simp_all
    then show False using ilog2_bounds(1)[OF x] assms(2) by simp
  qed
  then have "e \<le> - 51" using x by (simp add: e_def)
  then have "(2::rat) powi e \<le> 2 powi (- 51)" by (intro power_int_increasing) simp_all
  then have e51: "(2::rat) powi e \<le> 1 / 2 ^ 51" by (simp add: power_int_minus field_simps)
  define y where "y = x / 2 powi e"
  have xy: "x = y * 2 powi e" using pe by (simp add: y_def)
  have "\<bar>of_int (round_half_even y) - y\<bar> \<le> 1 / 2" by (rule round_half_even_error)
  then have "\<bar>of_int (round_half_even y) - y\<bar> * 2 powi e \<le> 1 / 2 * 2 powi e"
    using pe by (simp add: mult_right_mono)
  moreover have "\<bar>round_float x - x\<bar> = \<bar>of_int (round_half_even y) - y\<bar> * 2 powi e"
  proof -
    have "round_float x - x = (of_int (round_half_even y) - y) * 2 powi e"
      unfolding r y_def[symmetric] xy[symmetric] using xy by (simp add: algebra_simps)
    then show ?thesis using pe by (simp add: abs_mult)
  qed
  ultimately have "\<bar>round_float x - x\<bar> \<le> 1 / 2 * 2 powi e" by simp
  then show ?thesis using e51 by simp
qed

subsection \<open>Statistics engine: frequency total\<close>

lemma py_index_in_range: "1 \<le> n \<Longrightarrow> n < int m \<Longrightarrow> py_index m n = Some (nat n)"
  by (simp add: py_index_def)

lemma sum_list_incr:
  "k < length (f::int list) \<Longrightarrow> sum_list (f[k := f ! k + 1]) = sum_list f + 1"
  by (induction f arbitrary: k) (auto split: nat.splits)

lemma count_main_sum:
  assumes "\<forall>n\<in>set ns. 1 \<le> n \<and> n < int (length f)" "length l = length f"
  shows "\<exists>f' l'. count_main ns i (f, l) = Inr (f', l') \<and> length f' = length f
           \<and> length l' = length f \<and> sum_list f' = sum_list f + int (length ns)"
  using assms
proof (induction ns arbitrary: f l)
  case Nil
  then show ?case by simp
next
  case (Cons n ns)
  have n: "1 \<le> n" "n < int (length f)" using Cons.prems by auto
  have k: "nat n < length f" using n by linarith
  let ?f = "f[nat n := f ! nat n + 1]" and ?l = "l[nat n := Some i]"
  have "\<forall>m\<in>set ns. 1 \<le> m \<and> m < int (length ?f)" using Cons.prems by simp
  moreover have "length ?l = length ?f" using Cons.prems by simp
  ultimately obtain f' l' where r: "count_main ns i (?f, ?l) = Inr (f', l')"
    "length f' = length ?f" "length l' = length ?f" "sum_list f' = sum_list ?f + int (length ns)"
    using Cons.IH by blast
  have s: "sum_list ?f = sum_list f + 1"
    using k by (rule sum_list_incr)
  show ?case
    using r s n Cons.prems(2) by (simp add: py_index_in_range)
qed

lemma count_draws_sum:
  assumes "\<forall>(d, main, b)\<in>set ds. int (length main) = c \<and> (\<forall>n\<in>set main. 1 \<le> n \<and> n < int (length f))"
    "length l = length f"
  shows "\<exists>f' l'. count_draws ds i (f, l) = Inr (i + int (length ds), f', l') \<and> length f' = length f
           \<and> sum_list f' = sum_list f + int (length ds) * c"
  using assms
proof (induction ds arbitrary: i f l)
  case Nil
  then show ?case by simp
next
  case (Cons x ds)
  obtain d main b where x: "x = (d, main, b)" by (cases x)
  have m: "int (length main) = c" "\<forall>n\<in>set main. 1 \<le> n \<and> n < int (length f)"
    using Cons.prems x by auto
  obtain f1 l1 where r1: "count_main main (i + 1) (f, l) = Inr (f1, l1)" "length f1 = length f"
    "length l1 = length f" "sum_list f1 = sum_list f + int (length main)"
    using count_main_sum[OF m(2) Cons.prems(2)] by blast
  have "\<forall>(d, main, b)\<in>set ds. int (length main) = c \<and> (\<forall>n\<in>set main. 1 \<le> n \<and> n < int (length f1))"
    using Cons.prems(1) r1(2) by auto
  moreover have "length l1 = length f1" using r1 by simp
  ultimately obtain f' l' where r2: "count_draws ds (i + 1) (f1, l1) = Inr (i + 1 + int (length ds), f', l')"
    "length f' = length f1" "sum_list f' = sum_list f1 + int (length ds) * c"
    using Cons.IH by blast
  show ?case
    using r1 r2 m(1) x by (simp add: algebra_simps)
qed

lemma count_main_zero:
  assumes "\<forall>n\<in>set ns. 1 \<le> n \<and> n < int (length f)" "length l = length f"
    "count_main ns i (f, l) = Inr (f', l')"
  shows "f' ! 0 = f ! 0"
  using assms
proof (induction ns arbitrary: f l)
  case Nil
  then show ?case by simp
next
  case (Cons n ns)
  have n: "1 \<le> n" "n < int (length f)" using Cons.prems by auto
  let ?f = "f[nat n := f ! nat n + 1]" and ?l = "l[nat n := Some i]"
  have c: "count_main ns i (?f, ?l) = Inr (f', l')"
    using Cons.prems n by (simp add: py_index_in_range)
  have "f' ! 0 = ?f ! 0"
    by (rule Cons.IH[OF _ _ c]) (use Cons.prems in auto)
  moreover have "?f ! 0 = f ! 0" using n by simp
  ultimately show ?case by simp
qed

lemma count_draws_zero:
  assumes "\<forall>(d, main, b)\<in>set ds. (\<forall>n\<in>set main. 1 \<le> n \<and> n < int (length f))"
    "length l = length f" "count_draws ds i (f, l) = Inr (i', f', l')"
  shows "f' ! 0 = f ! 0"
  using assms
proof (induction ds arbitrary: i f l)
  case Nil
  then show ?case by simp
next
  case (Cons x ds)
  obtain d main b where x: "x = (d, main, b)" by (cases x)
  have m: "\<forall>n\<in>set main. 1 \<le> n \<and> n < int (length f)"
    using Cons.prems x by auto
  obtain f1 l1 where r1: "count_main main (i + 1) (f, l) = Inr (f1, l1)" "length f1 = length f"
    "length l1 = length f"
    using count_main_sum[OF m Cons.prems(2)] by blast
  have c: "count_draws ds (i + 1) (f1, l1) = Inr (i', f', l')"
    using Cons.prems(3) x r1 by simp
  have "f' ! 0 = f1 ! 0"
    by (rule Cons.IH[OF _ _ c]) (use Cons.prems r1 in auto)
  moreover have "f1 ! 0 = f ! 0" using count_main_zero[OF m Cons.prems(2) r1(1)] .
  ultimately show ?case by simp
qed

lemma range1_map_nth:
  assumes "length f = nat (m + 1)" "0 \<le> m"
  shows "map (\<lambda>n. f ! nat n) (range1 m) = tl f"
proof (rule nth_equalityI)
  show "length (map (\<lambda>n. f ! nat n) (range1 m)) = length (tl f)"
    using assms by (simp add: range1_def)
next
  fix i assume "i < length (map (\<lambda>n. f ! nat n) (range1 m))"
  then have i: "i < nat m" by (simp add: range1_def)
  then have "[1..m] ! i = 1 + int i" by (simp add: nth_upto)
  then show "map (\<lambda>n. f ! nat n) (range1 m) ! i = tl f ! i"
    using i assms by (simp add: range1_def nth_tl nat_add_distrib)
qed

lemma sum_range1:
  assumes "length (f::int list) = nat (m + 1)"  "0 \<le> m"
  shows "sum_list (map (\<lambda>n. f ! nat n) (range1 m)) = sum_list f - f ! 0"
proof -
  have "f \<noteq> []" using assms by auto
  then obtain a t where f: "f = a # t" by (cases f) auto
  have "sum_list (map (\<lambda>n. f ! nat n) (range1 m)) = sum_list (tl f)"
    by (simp only: range1_map_nth[OF assms])
  also have "\<dots> = sum_list f - f ! 0" by (simp add: f)
  finally show ?thesis .
qed

text \<open>
  Claim C6.  For a non-empty draw list whose records each carry exactly \<open>count\<close> main
  numbers, all within \<open>1..max_n\<close>, and for every lookback, \<^verbatim>\<open>compute_stats\<close> returns a
  snapshot in which the frequencies of \<open>1..max_n\<close> add up to \<open>sample_size * count\<close>, where
  \<open>sample_size\<close> is the number of draws left by the trailing lookback slice.
\<close>

theorem frequency_sum:
  assumes "draws \<noteq> []"
    and "\<forall>(d, main, b)\<in>set draws. int (length main) = count \<and> (\<forall>n\<in>set main. 1 \<le> n \<and> n \<le> max_n)"
  shows "\<exists>s. compute_stats draws max_n count lookback = Inr (Some s)
           \<and> sum_list (map (\<lambda>n. freq s ! nat n) (range1 max_n)) = sample_size s * count
           \<and> sample_size s = int (length (analysed draws lookback))"
proof -
  let ?ds = "analysed draws lookback"
  let ?f0 = "py_repeat (0::int) (max_n + 1)" and ?l0 = "py_repeat (None::int option) (max_n + 1)"
  have sub: "set ?ds \<subseteq> set draws"
    by (auto simp: analysed_def py_slice_from_def split: option.splits dest: in_set_dropD)
  have len: "length ?f0 = nat (max_n + 1)" "length ?l0 = length ?f0"
    by (simp_all add: py_repeat_def)
  have pre: "\<forall>(d, main, b)\<in>set ?ds. int (length main) = count \<and> (\<forall>n\<in>set main. 1 \<le> n \<and> n < int (length ?f0))"
    using assms(2) sub len(1) by fastforce
  obtain f' l' where r: "count_draws ?ds 0 (?f0, ?l0) = Inr (0 + int (length ?ds), f', l')"
    "length f' = length ?f0" "sum_list f' = sum_list ?f0 + int (length ?ds) * count"
    using count_draws_sum[OF pre len(2), of 0] by blast
  have z: "f' ! 0 = ?f0 ! 0"
    by (rule count_draws_zero[OF _ len(2) r(1)]) (use pre in fastforce)
  have s0: "sum_list ?f0 = 0" by (simp add: py_repeat_def sum_list_replicate)
  have tot: "sum_list (map (\<lambda>n. f' ! nat n) (range1 max_n)) = int (length ?ds) * count"
  proof (cases "0 \<le> max_n")
    case True
    have "?f0 ! 0 = 0" using True by (simp add: py_repeat_def)
    then show ?thesis
      using sum_range1[of f' max_n] r(2,3) len(1) True z s0 by simp
  next
    case False
    then have e: "range1 max_n = []" by (simp add: range1_def)
    have l0: "length ?f0 = 0" using False len(1) by simp
    have "int (length ?ds) * count = 0"
    proof (cases ?ds)
      case Nil
      then show ?thesis by simp
    next
      case (Cons x xs)
      obtain d main b where x: "x = (d, main, b)" by (cases x)
      have m: "int (length main) = count" "\<forall>n\<in>set main. 1 \<le> n \<and> n < int (length ?f0)"
        using pre Cons x by auto
      have "main = []"
      proof (cases main)
        case Nil
        then show ?thesis .
      next
        case (Cons n ns)
        then have "1 \<le> n \<and> n < int (length ?f0)" using m(2) by simp
        then have False using l0 by auto
        then show ?thesis ..
      qed
      then show ?thesis using m(1) by simp
    qed
    then show ?thesis using e by simp
  qed
  show ?thesis
    using assms(1) r(1) tot by (simp add: compute_stats_def Let_def)
qed

theorem frequency_sum_witness:
  "ex_draws_a \<noteq> []
   \<and> list_all (\<lambda>(d, main, b). int (length main) = 2 \<and> list_all (\<lambda>n. 1 \<le> n \<and> n \<le> 3) main) ex_draws_a
   \<and> (\<exists>s. compute_stats ex_draws_a 3 2 (Some 1) = Inr (Some s)
         \<and> sum_list (map (\<lambda>n. freq s ! nat n) (range1 3)) = sample_size s * 2
         \<and> sample_size s = 1)"
proof -
  have h1: "ex_draws_a \<noteq> []"
    by (simp add: ex_draws_a_def)
  have h2: "\<forall>(d, main, b)\<in>set ex_draws_a. int (length main) = 2 \<and> (\<forall>n\<in>set main. 1 \<le> n \<and> n \<le> 3)"
    by (simp add: ex_draws_a_def)
  have a: "int (length (analysed ex_draws_a (Some 1))) = 1"
    by (simp add: ex_draws_a_def analysed_def py_slice_from_def py_bound_def)
  show ?thesis
    using frequency_sum[OF h1 h2, of "Some 1"] h1 a
    by (simp add: ex_draws_a_def)
qed

subsection \<open>Statistics engine: the bonus is not read\<close>

lemma count_draws_mains:
  "map (\<lambda>(d, m, b). m) ds1 = map (\<lambda>(d, m, b). m) ds2 \<Longrightarrow>
   count_draws ds1 i fl = count_draws ds2 i fl"
proof (induction ds1 arbitrary: ds2 i fl)
  case Nil
  then show ?case by simp
next
  case (Cons x xs)
  then obtain y ys where ds2: "ds2 = y # ys" by (cases ds2) auto
  obtain d m b where x: "x = (d, m, b)" by (cases x)
  obtain d' m' b' where y: "y = (d', m', b')" by (cases y)
  obtain f l where fl: "fl = (f, l)" by (cases fl)
  have mm: "m' = m" and t: "map (\<lambda>(d, m, b). m) xs = map (\<lambda>(d, m, b). m) ys"
    using Cons.prems ds2 x y by auto
  show ?case
    using Cons.IH[OF t] by (simp add: ds2 x y fl mm split: sum.splits)
qed

lemma analysed_map:
  "map g (analysed ds lb) = (case lb of None \<Rightarrow> map g ds
      | Some k \<Rightarrow> if k = 0 then map g ds else py_slice_from (map g ds) (- k))"
  by (simp add: analysed_def py_slice_from_def drop_map split: option.splits)

text \<open>
  Claim C9.  The statistics engine never reads the bonus component: two draw lists that
  agree record by record on date and main numbers give the same result of
  \<^verbatim>\<open>compute_stats\<close> (the same snapshot, the same empty result or the same exception), for
  every \<open>max_n\<close>, \<open>count\<close> and lookback.
\<close>

theorem stats_ignore_bonus:
  assumes "map (\<lambda>(d, m, b). (d, m)) ds1 = map (\<lambda>(d, m, b). (d, m)) ds2"
  shows "compute_stats ds1 max_n count lookback = compute_stats ds2 max_n count lookback"
proof -
  have "map snd (map (\<lambda>(d, m, b). (d, m)) ds1) = map snd (map (\<lambda>(d, m, b). (d, m)) ds2)"
    by (simp only: assms)
  then have m: "map (\<lambda>(d, m, b). m) ds1 = map (\<lambda>(d, m, b). m) ds2"
    by (simp add: comp_def case_prod_unfold)
  have "length (map (\<lambda>(d, m, b). (d, m)) ds1) = length (map (\<lambda>(d, m, b). (d, m)) ds2)"
    by (simp only: assms)
  then have e: "(ds1 = []) = (ds2 = [])"
    by auto
  have "map (\<lambda>(d, m, b). m) (analysed ds1 lookback) = map (\<lambda>(d, m, b). m) (analysed ds2 lookback)"
    by (simp only: analysed_map m)
  then have "count_draws (analysed ds1 lookback) i fl = count_draws (analysed ds2 lookback) i fl" for i fl
    by (rule count_draws_mains)
  then show ?thesis
    using e by (simp add: compute_stats_def)
qed


theorem stats_ignore_bonus_witness:
  "map (\<lambda>(d, m, b). (d, m)) ex_draws_a = map (\<lambda>(d, m, b). (d, m)) ex_draws_b
   \<and> ex_draws_a \<noteq> ex_draws_b
   \<and> compute_stats ex_draws_a 3 2 None = compute_stats ex_draws_b 3 2 None"
  using stats_ignore_bonus[of ex_draws_a ex_draws_b 3 2 None]
  by (simp add: ex_draws_a_def ex_draws_b_def)

subsection \<open>Stable sorting and rank dictionaries\<close>

lemma key_then_key_le: "key_then f R a b \<Longrightarrow> f a \<le> f b"
  by (auto simp: key_then_def)

lemma insort_key_then:
  assumes "sorted_wrt (key_then f R) ys" and "\<forall>y\<in>set ys. R x y"
  shows "sorted_wrt (key_then f R) (insort_key f x ys)"
  using assms
proof (induction ys)
  case Nil
  then show ?case by simp
next
  case (Cons y ys)
  show ?case
  proof (cases "f x \<le> f y")
    case True
    have "key_then f R x z" if "z \<in> set (y # ys)" for z
    proof -
      have "f y \<le> f z" using that Cons.prems(1) by (auto dest: key_then_key_le)
      then have "f x \<le> f z" using True by simp
      moreover have "R x z" using that Cons.prems(2) by auto
      ultimately show ?thesis by (auto simp: key_then_def)
    qed
    then show ?thesis using True Cons.prems(1) by simp
  next
    case False
    have 1: "sorted_wrt (key_then f R) (insort_key f x ys)"
      using Cons by simp
    have 2: "key_then f R y x" using False by (auto simp: key_then_def)
    have 3: "\<forall>z\<in>set ys. key_then f R y z" using Cons.prems(1) by simp
    show ?thesis using False 1 2 3 by (simp add: set_insort_key)
  qed
qed

lemma sort_key_then:
  "sorted_wrt R xs \<Longrightarrow> sorted_wrt (key_then f R) (sort_key f xs)"
proof (induction xs)
  case Nil
  then show ?case by simp
next
  case (Cons x xs)
  have "sorted_wrt (key_then f R) (sort_key f xs)" using Cons by simp
  moreover have "\<forall>y\<in>set (sort_key f xs). R x y" using Cons.prems by simp
  ultimately show ?case by (simp add: insort_key_then)
qed

lemma sorted_wrt_index_less:
  assumes "sorted_wrt Q l" "i < length l" "j < length l" "Q (l ! i) (l ! j)"
    and "\<And>a b. Q a b \<Longrightarrow> \<not> Q b a"
  shows "i < j"
proof (rule ccontr)
  assume "\<not> i < j"
  then consider "i = j" | "j < i" by linarith
  then show False
  proof cases
    case 1
    then show ?thesis using assms(4,5) by auto
  next
    case 2
    then have "Q (l ! j) (l ! i)" using assms(1,2) by (simp add: sorted_wrt_nth_less)
    then show ?thesis using assms(4,5) by auto
  qed
qed

lemma length_update_new:
  "k \<notin> fst ` set al \<Longrightarrow> length (AList.update k v al) = Suc (length al)"
  by (induction al) auto

lemma rank_fold:
  assumes "distinct (map fst r)" and "fst ` set d \<inter> fst ` set r = {}"
  shows "length (fold (\<lambda>(i, (n, _)) d. AList.update n (int i + 1) d) (enumerate k r) d)
           = length d + length r
       \<and> (\<forall>j<length r. map_of (fold (\<lambda>(i, (n, _)) d. AList.update n (int i + 1) d) (enumerate k r) d)
             (fst (r ! j)) = Some (int (k + j) + 1))"
  using assms
proof (induction r arbitrary: k d)
  case Nil
  then show ?case by simp
next
  case (Cons p r)
  obtain n v where p: "p = (n, v)" by (cases p)
  let ?step = "\<lambda>(i, (n, _)) d. AList.update n (int i + 1) d"
  let ?d = "AList.update n (int k + 1) d"
  have nd: "n \<notin> fst ` set d" using Cons.prems(2) p by auto
  have nr: "n \<notin> fst ` set r" using Cons.prems(1) p by (auto simp: image_iff)
  have len: "length ?d = Suc (length d)" using nd by (rule length_update_new)
  have dom: "fst ` set ?d = insert n (fst ` set d)" by (simp add: dom_update)
  have dis: "fst ` set ?d \<inter> fst ` set r = {}"
    using Cons.prems(2) nr dom by auto
  have dr: "distinct (map fst r)" using Cons.prems(1) by simp
  have IH: "length (fold ?step (enumerate (Suc k) r) ?d) = length ?d + length r
       \<and> (\<forall>j<length r. map_of (fold ?step (enumerate (Suc k) r) ?d) (fst (r ! j)) = Some (int (Suc k + j) + 1))"
    by (rule Cons.IH[OF dr dis])
  have keep: "map_of (fold ?step (enumerate k' r) d') n = map_of d' n" for k' d'
    using nr
  proof (induction r arbitrary: k' d')
    case Nil
    then show ?case by simp
  next
    case (Cons q r)
    obtain m u where q: "q = (m, u)" by (cases q)
    have "m \<noteq> n" using Cons.prems q by auto
    moreover have "n \<notin> fst ` set r" using Cons.prems by auto
    ultimately show ?case using Cons.IH by (simp add: q update_conv')
  qed
  have f: "fold ?step (enumerate k (p # r)) d = fold ?step (enumerate (Suc k) r) ?d"
    by (simp add: p)
  have "map_of (fold ?step (enumerate k (p # r)) d) (fst ((p # r) ! j)) = Some (int (k + j) + 1)"
    if "j < length (p # r)" for j
    unfolding f
  proof (cases j)
    case 0
    then show "map_of (fold ?step (enumerate (Suc k) r) ?d) (fst ((p # r) ! j)) = Some (int (k + j) + 1)"
      using keep[of "Suc k" ?d] by (simp add: p update_conv')
  next
    case (Suc j')
    then have "j' < length r" using that by simp
    then show "map_of (fold ?step (enumerate (Suc k) r) ?d) (fst ((p # r) ! j)) = Some (int (k + j) + 1)"
      using IH Suc by simp
  qed
  then show ?case unfolding f using IH len by simp
qed

lemma rank_dict_distinct:
  assumes "distinct (map fst r)"
  shows "length (rank_dict r) = length r"
    and "j < length r \<Longrightarrow> map_of (rank_dict r) (fst (r ! j)) = Some (int j + 1)"
  using rank_fold[OF assms, of "[]" 0] by (simp_all add: rank_dict_def)

subsection \<open>Weighting model: weights of a covered snapshot\<close>

lemma weight_loop_ok:
  assumes "distinct ns" and "\<forall>n\<in>set ns. 1 \<le> n \<and> n < int (length base)"
    and "\<forall>n\<in>set ns. \<exists>h v. map_of H n = Some h \<and> map_of V n = Some v"
  shows "\<exists>w. weight_loop H V fl ns base = Inr w \<and> length w = length base
           \<and> (\<forall>n\<in>set ns. w ! nat n = float_add (base ! nat n)
                 (flavor_bonus fl (score H (the (map_of H n))) (score V (the (map_of V n)))))
           \<and> (\<forall>k. k \<notin> nat ` set ns \<longrightarrow> w ! k = base ! k)"
  using assms
proof (induction ns arbitrary: base)
  case Nil
  then show ?case by simp
next
  case (Cons n ns)
  obtain h v where hv: "map_of H n = Some h" "map_of V n = Some v"
    using Cons.prems(3) by auto
  have n: "1 \<le> n" "n < int (length base)" using Cons.prems(2) by auto
  let ?b = "flavor_bonus fl (score H h) (score V v)"
  let ?base = "base[nat n := float_add (base ! nat n) ?b]"
  have step: "weight_loop H V fl (n # ns) base = weight_loop H V fl ns ?base"
    using hv n by (simp add: py_index_in_range)
  have d: "distinct ns" and nn: "n \<notin> set ns" using Cons.prems(1) by auto
  have r: "\<forall>m\<in>set ns. 1 \<le> m \<and> m < int (length ?base)" using Cons.prems(2) by simp
  have k: "\<forall>m\<in>set ns. \<exists>h v. map_of H m = Some h \<and> map_of V m = Some v"
    using Cons.prems(3) by simp
  obtain w where w: "weight_loop H V fl ns ?base = Inr w" "length w = length ?base"
    "\<forall>m\<in>set ns. w ! nat m = float_add (?base ! nat m)
        (flavor_bonus fl (score H (the (map_of H m))) (score V (the (map_of V m))))"
    "\<forall>k. k \<notin> nat ` set ns \<longrightarrow> w ! k = ?base ! k"
    using Cons.IH[OF d r k] by blast
  have notin: "nat n \<notin> nat ` set ns"
  proof
    assume "nat n \<in> nat ` set ns"
    then obtain m where m: "m \<in> set ns" "nat m = nat n" by auto
    then have "1 \<le> m" using Cons.prems(2) by simp
    then have "m = n" using m(2) n(1) by linarith
    then show False using m(1) nn by simp
  qed
  have wn: "w ! nat n = float_add (base ! nat n) ?b"
    using w(4) notin n by simp
  have wm: "w ! nat m = float_add (base ! nat m)
        (flavor_bonus fl (score H (the (map_of H m))) (score V (the (map_of V m))))"
    if "m \<in> set ns" for m
  proof -
    have "nat m \<in> nat ` set ns" using that by (rule imageI)
    then have "nat m \<noteq> nat n" using notin by metis
    then have "?base ! nat m = base ! nat m" by simp
    then show ?thesis using w(3) that by simp
  qed
  have wk: "w ! k = base ! k" if "k \<notin> nat ` set (n # ns)" for k
  proof -
    have "k \<noteq> nat n" "k \<notin> nat ` set ns" using that by auto
    then show ?thesis using w(4) by simp
  qed
  show ?case
    unfolding step using w(1,2) wn wm wk hv by auto
qed

lemma covers_index:
  assumes "covers r m" "1 \<le> n" "n \<le> m"
  shows "\<exists>j<length r. fst (r ! j) = n"
proof -
  have "n \<in> set (range1 m)" using assms(2,3) by (simp add: range1_def)
  then have "n \<in> set (map fst r)"
    using assms(1) by (auto simp: covers_def list_all_iff)
  then obtain j where "j < length (map fst r)" "map fst r ! j = n"
    by (auto simp: in_set_conv_nth)
  then have "j < length r \<and> fst (r ! j) = n" by simp
  then show ?thesis by blast
qed

lemma covers_rank:
  assumes "covers r m" "1 \<le> n" "n \<le> m"
  shows "\<exists>j<length r. fst (r ! j) = n \<and> map_of (rank_dict r) n = Some (int j + 1)
           \<and> score (rank_dict r) (int j + 1) = true_div (int (length r) - int j) (int (length r))"
proof -
  obtain j where j: "j < length r" "fst (r ! j) = n" using covers_index[OF assms] by blast
  have d: "distinct (map fst r)" using assms(1) by (simp add: covers_def)
  have "map_of (rank_dict r) n = Some (int j + 1)"
    using rank_dict_distinct(2)[OF d j(1)] j(2) by simp
  moreover have "score (rank_dict r) (int j + 1) = true_div (int (length r) - int j) (int (length r))"
    by (simp add: score_def rank_dict_distinct(1)[OF d])
  ultimately show ?thesis using j by blast
qed

lemma true_div_nonneg: "0 \<le> a \<Longrightarrow> 0 \<le> b \<Longrightarrow> 0 \<le> true_div a b"
  unfolding true_div_def by (rule round_float_nonneg) simp

lemma covers_score_nonneg:
  assumes "covers r m" "1 \<le> n" "n \<le> m"
  shows "\<exists>k. map_of (rank_dict r) n = Some k \<and> 0 \<le> score (rank_dict r) k"
proof -
  obtain j where j: "j < length r" "map_of (rank_dict r) n = Some (int j + 1)"
    "score (rank_dict r) (int j + 1) = true_div (int (length r) - int j) (int (length r))"
    using covers_rank[OF assms] by blast
  have "0 \<le> true_div (int (length r) - int j) (int (length r))"
    by (rule true_div_nonneg) (use j(1) in simp_all)
  then have "0 \<le> score (rank_dict r) (int j + 1)" using j(3) by simp
  then show ?thesis using j(2) by blast
qed

lemma float_add_nonneg: "0 \<le> a \<Longrightarrow> 0 \<le> b \<Longrightarrow> 0 \<le> float_add a b"
  unfolding float_add_def by (rule round_float_nonneg) simp

lemma float_mul_nonneg: "0 \<le> a \<Longrightarrow> 0 \<le> b \<Longrightarrow> 0 \<le> float_mul a b"
  unfolding float_mul_def by (rule round_float_nonneg) simp

lemma flavor_bonus_nonneg: "0 \<le> a \<Longrightarrow> 0 \<le> b \<Longrightarrow> 0 \<le> flavor_bonus fl a b"
  by (simp add: flavor_bonus_def float_add_nonneg float_mul_nonneg)

lemma float_add_one: "0 \<le> b \<Longrightarrow> 1 \<le> float_add 1 b"
  unfolding float_add_def by (rule round_float_ge_one) simp

lemma smart_weight_covers:
  assumes "covers (hot s) max_n" "covers (overdue s) max_n"
  shows "\<exists>w. smart_weight (Some s) max_n fl = Inr w \<and> length w = nat (max_n + 1)
           \<and> (\<forall>n. 1 \<le> n \<and> n \<le> max_n \<longrightarrow>
                 w ! nat n = float_add 1 (flavor_bonus fl
                   (score (rank_dict (hot s)) (the (map_of (rank_dict (hot s)) n)))
                   (score (rank_dict (overdue s)) (the (map_of (rank_dict (overdue s)) n)))))
           \<and> (\<forall>n. 1 \<le> n \<and> n \<le> max_n \<longrightarrow> 1 \<le> w ! nat n)"
proof -
  let ?H = "rank_dict (hot s)" and ?V = "rank_dict (overdue s)"
  let ?base = "py_repeat (1::rat) (max_n + 1)"
  have len: "length ?base = nat (max_n + 1)" by (simp add: py_repeat_def)
  have 1: "distinct (range1 max_n)" by (simp add: range1_def)
  have 2: "\<forall>n\<in>set (range1 max_n). 1 \<le> n \<and> n < int (length ?base)"
    by (auto simp: range1_def len)
  have 3: "\<forall>n\<in>set (range1 max_n). \<exists>h v. map_of ?H n = Some h \<and> map_of ?V n = Some v"
  proof
    fix n assume "n \<in> set (range1 max_n)"
    then have n: "1 \<le> n" "n \<le> max_n" by (simp_all add: range1_def)
    show "\<exists>h v. map_of ?H n = Some h \<and> map_of ?V n = Some v"
      using covers_score_nonneg[OF assms(1) n] covers_score_nonneg[OF assms(2) n] by blast
  qed
  obtain w where w: "weight_loop ?H ?V fl (range1 max_n) ?base = Inr w" "length w = length ?base"
    "\<forall>n\<in>set (range1 max_n). w ! nat n = float_add (?base ! nat n)
        (flavor_bonus fl (score ?H (the (map_of ?H n))) (score ?V (the (map_of ?V n))))"
    using weight_loop_ok[OF 1 2 3, of fl] by blast
  have val: "w ! nat n = float_add 1 (flavor_bonus fl (score ?H (the (map_of ?H n))) (score ?V (the (map_of ?V n))))"
    if "1 \<le> n \<and> n \<le> max_n" for n
  proof -
    have "n \<in> set (range1 max_n)" using that by (simp add: range1_def)
    moreover have "?base ! nat n = 1" using that by (simp add: py_repeat_def)
    ultimately show ?thesis using w(3) by simp
  qed
  have pos: "1 \<le> w ! nat n" if "1 \<le> n \<and> n \<le> max_n" for n
  proof -
    have n: "1 \<le> n" "n \<le> max_n" using that by auto
    obtain h where h: "map_of ?H n = Some h" "0 \<le> score ?H h"
      using covers_score_nonneg[OF assms(1) n] by blast
    obtain v where v: "map_of ?V n = Some v" "0 \<le> score ?V v"
      using covers_score_nonneg[OF assms(2) n] by blast
    have "0 \<le> flavor_bonus fl (score ?H h) (score ?V v)"
      using h(2) v(2) by (rule flavor_bonus_nonneg)
    then have "1 \<le> float_add 1 (flavor_bonus fl (score ?H h) (score ?V v))"
      by (rule float_add_one)
    then show ?thesis using val[OF that] h(1) v(1) by simp
  qed
  show ?thesis
    using w(1,2) len val pos by (simp add: smart_weight_def)
qed

lemma c4_stats_eval: "compute_stats c4_draws 12 6 None = Inr (Some c4_stats)"
  by code_simp

lemma c4_covers: "covers (hot c4_stats) 12" "covers (overdue c4_stats) 12"
  by code_simp+

lemma c4_weights_eval: "smart_weight (Some c4_stats) 12 ''hot'' = Inr c4_weights"
  by code_simp

lemma tie_stats_eval: "compute_stats tie_draws 6 2 None = Inr (Some tie_stats)"
  by code_simp

lemma tie_covers: "covers (hot tie_stats) 6" "covers (overdue tie_stats) 6"
  by code_simp+

lemma tie_weights_eval: "smart_weight (Some tie_stats) 6 ''balanced'' = Inr tie_weights"
  by code_simp

subsection \<open>Top-probability selector\<close>

lemma sorted_wrt_unique:
  assumes "\<And>a b. Q a b \<Longrightarrow> \<not> Q b a"
    and "sorted_wrt Q xs" "sorted_wrt Q ys" "set xs = set ys"
  shows "xs = ys"
  using assms(2,3,4)
proof (induction xs arbitrary: ys)
  case Nil
  then show ?case by simp
next
  case (Cons x xs)
  then obtain y ys' where ys: "ys = y # ys'" by (cases ys) auto
  have xy: "x = y"
  proof (rule ccontr)
    assume ne: "x \<noteq> y"
    have "x \<in> set ys" using Cons.prems(3) by auto
    then have "x \<in> set ys'" using ne ys by simp
    then have 1: "Q y x" using Cons.prems(2) ys by simp
    have "y \<in> set (x # xs)" using Cons.prems(3) ys by auto
    then have "y \<in> set xs" using ne by simp
    then have "Q x y" using Cons.prems(1) by simp
    then show False using 1 assms(1) by blast
  qed
  have nx: "x \<notin> set xs"
  proof
    assume "x \<in> set xs"
    then have "Q x x" using Cons.prems(1) by simp
    then show False using assms(1) by blast
  qed
  have ny: "y \<notin> set ys'"
  proof
    assume "y \<in> set ys'"
    then have "Q y y" using Cons.prems(2) ys by simp
    then show False using assms(1) by blast
  qed
  have "set xs = set ys'"
    using Cons.prems(3) ys xy nx ny by auto
  then have "xs = ys'"
    using Cons.IH Cons.prems(1,2) ys by simp
  then show ?case using xy ys by simp
qed

lemma ranks_before_asym: "ranks_before base a b \<Longrightarrow> \<not> ranks_before base b a"
  by (auto simp: ranks_before_def)

lemma ranks_before_key_then:
  "ranks_before base = key_then (\<lambda>n. - (base ! nat n)) (<)"
  by (intro ext) (auto simp: ranks_before_def key_then_def)

lemma ranking_sorted:
  "sorted_wrt (ranks_before base) (sorted_desc (\<lambda>n. base ! nat n) (range1 m))"
proof -
  have "sorted_wrt (<) (range1 m)"
    by (simp add: range1_def sorted_wrt_upto)
  then show ?thesis
    unfolding ranks_before_key_then sorted_desc_def by (rule sort_key_then)
qed

text \<open>
  Claim C10.  For a snapshot whose hot and overdue rankings cover \<open>1..max_n\<close>, every
  flavor and every count, \<^verbatim>\<open>top_probability_line\<close> returns the sorted first \<open>count\<close>
  entries (Python slice \<^verbatim>\<open>ranking[:count]\<close>) of a ranking of \<open>1..max_n\<close> that is ordered by
  weight descending, numbers of equal weight smaller first; that ranking is the only list
  over \<open>1..max_n\<close> ordered so, hence the output is determined by the weight vector.
\<close>

theorem top_probability_tie_break:
  assumes "covers (hot s) max_n" and "covers (overdue s) max_n"
  shows "\<exists>base ranking. smart_weight (Some s) max_n flavor = Inr base
           \<and> top_probability_line (Some s) max_n count flavor = Inr (sort (py_slice_to ranking count))
           \<and> set ranking = {1..max_n}
           \<and> sorted_wrt (ranks_before base) ranking
           \<and> (\<forall>r. set r = {1..max_n} \<and> sorted_wrt (ranks_before base) r \<longrightarrow> r = ranking)"
proof -
  obtain base where b: "smart_weight (Some s) max_n flavor = Inr base"
    using smart_weight_covers[OF assms] by blast
  let ?ranking = "sorted_desc (\<lambda>n. base ! nat n) (range1 max_n)"
  have 1: "top_probability_line (Some s) max_n count flavor = Inr (sort (py_slice_to ?ranking count))"
    by (simp add: top_probability_line_def b)
  have 2: "set ?ranking = {1..max_n}"
    by (simp add: sorted_desc_def range1_def)
  have 3: "sorted_wrt (ranks_before base) ?ranking"
    by (rule ranking_sorted)
  have 4: "r = ?ranking" if "set r = {1..max_n} \<and> sorted_wrt (ranks_before base) r" for r
    by (rule sorted_wrt_unique[where Q = "ranks_before base"])
       (use that 2 3 in \<open>auto dest: ranks_before_asym\<close>)
  show ?thesis using b 1 2 3 4 by blast
qed

theorem top_probability_tie_break_witness:
  "covers (hot tie_stats) 6 \<and> covers (overdue tie_stats) 6
   \<and> compute_stats tie_draws 6 2 None = Inr (Some tie_stats)
   \<and> smart_weight (Some tie_stats) 6 ''balanced'' = Inr tie_weights
   \<and> tie_weights ! 2 = tie_weights ! 5 \<and> tie_weights ! 1 < tie_weights ! 4
   \<and> sorted_desc (\<lambda>n. tie_weights ! nat n) (range1 6) = [3, 4, 1, 2, 5, 6]
   \<and> top_probability_line (Some tie_stats) 6 2 ''balanced'' = Inr [3, 4]
   \<and> top_probability_line (Some tie_stats) 6 4 ''balanced'' = Inr [1, 2, 3, 4]
   \<and> (\<exists>base ranking. smart_weight (Some tie_stats) 6 ''balanced'' = Inr base
         \<and> top_probability_line (Some tie_stats) 6 4 ''balanced''
              = Inr (sort (py_slice_to ranking 4))
         \<and> set ranking = {1..6}
         \<and> sorted_wrt (ranks_before base) ranking
         \<and> (\<forall>r. set r = {1..6} \<and> sorted_wrt (ranks_before base) r \<longrightarrow> r = ranking))"
proof -
  have w: "tie_weights ! 2 = tie_weights ! 5 \<and> tie_weights ! 1 < tie_weights ! 4"
    by code_simp
  have r: "sorted_desc (\<lambda>n. tie_weights ! nat n) (range1 6) = [3, 4, 1, 2, 5, 6]"
    by code_simp
  have e: "top_probability_line (Some tie_stats) 6 4 ''balanced'' = Inr [1, 2, 3, 4]"
    by (simp only: top_probability_line_def tie_weights_eval) code_simp
  have e2: "top_probability_line (Some tie_stats) 6 2 ''balanced'' = Inr [3, 4]"
    by (simp only: top_probability_line_def tie_weights_eval) code_simp
  have t: "\<exists>base ranking. smart_weight (Some tie_stats) 6 ''balanced'' = Inr base
         \<and> top_probability_line (Some tie_stats) 6 4 ''balanced''
              = Inr (sort (py_slice_to ranking 4))
         \<and> set ranking = {1..6}
         \<and> sorted_wrt (ranks_before base) ranking
         \<and> (\<forall>r. set r = {1..6} \<and> sorted_wrt (ranks_before base) r \<longrightarrow> r = ranking)"
    by (rule top_probability_tie_break[OF tie_covers])
  show ?thesis
    by (intro conjI) (rule tie_covers tie_stats_eval tie_weights_eval w[THEN conjunct1]
      w[THEN conjunct2] r e2 e t)+
qed

subsection \<open>Biased line sampler\<close>

lemma accumulate_from_length: "length (accumulate_from a ws) = length ws"
  by (induction ws arbitrary: a) auto

lemma accumulate_from_nth:
  "i < length ws \<Longrightarrow> accumulate_from a ws ! i = a + sum_list (take (Suc i) ws)"
proof (induction ws arbitrary: a i)
  case Nil
  then show ?case by simp
next
  case (Cons w ws)
  show ?case
  proof (cases i)
    case 0
    then show ?thesis by simp
  next
    case (Suc j)
    then have "j < length ws" using Cons.prems by simp
    then show ?thesis using Cons.IH[of j "a + w"] Suc by (simp add: add.assoc)
  qed
qed

lemma accumulate_last:
  "ws \<noteq> [] \<Longrightarrow> last (accumulate ws) = sum_list ws"
proof -
  assume ne: "ws \<noteq> []"
  then have l: "length ws - 1 < length ws" by (cases ws) auto
  have "accumulate ws \<noteq> []" using ne by (cases ws) (auto simp: accumulate_def)
  then have "last (accumulate ws) = accumulate ws ! (length ws - 1)"
    by (simp add: last_conv_nth accumulate_def accumulate_from_length)
  also have "\<dots> = sum_list (take (Suc (length ws - 1)) ws)"
    using accumulate_from_nth[OF l, of 0] by (simp add: accumulate_def)
  also have "\<dots> = sum_list ws" using l by simp
  finally show ?thesis .
qed

lemma accumulate_step:
  assumes "Suc i < length ws"
  shows "accumulate ws ! Suc i = accumulate ws ! i + ws ! Suc i"
proof -
  have i: "i < length ws" using assms by simp
  have "take (Suc (Suc i)) ws = take (Suc i) ws @ [ws ! Suc i]"
    using assms by (simp add: take_Suc_conv_app_nth)
  then show ?thesis
    using accumulate_from_nth[OF assms, of 0] accumulate_from_nth[OF i, of 0]
    by (simp add: accumulate_def)
qed

lemma accumulate_first: "ws \<noteq> [] \<Longrightarrow> accumulate ws ! 0 = ws ! 0"
  by (cases ws) (auto simp: accumulate_def)

lemma bisect_right_inv:
  assumes "lo \<le> hi" and "x < a ! hi" and "lo = 0 \<or> a ! (lo - 1) \<le> x"
  shows "lo \<le> bisect_right a x lo hi \<and> bisect_right a x lo hi \<le> hi
           \<and> x < a ! bisect_right a x lo hi
           \<and> (bisect_right a x lo hi = 0 \<or> a ! (bisect_right a x lo hi - 1) \<le> x)"
  using assms
proof (induction a x lo hi rule: bisect_right.induct)
  case (1 a x lo hi)
  show ?case
  proof (cases "lo < hi")
    case False
    then have "bisect_right a x lo hi = lo" by (simp add: bisect_right.simps)
    moreover have "lo = hi" using False "1.prems"(1) by simp
    ultimately show ?thesis using "1.prems" by simp
  next
    case True
    let ?mid = "(lo + hi) div 2"
    have m: "lo \<le> ?mid" "?mid < hi" using True by auto
    show ?thesis
    proof (cases "x < a ! ?mid")
      case lt: True
      have e: "bisect_right a x lo hi = bisect_right a x lo ?mid"
        using True lt by (subst bisect_right.simps) (simp add: Let_def)
      have "lo \<le> bisect_right a x lo ?mid \<and> bisect_right a x lo ?mid \<le> ?mid
           \<and> x < a ! bisect_right a x lo ?mid
           \<and> (bisect_right a x lo ?mid = 0 \<or> a ! (bisect_right a x lo ?mid - 1) \<le> x)"
        using "1.IH"(1)[OF True refl lt m(1) lt "1.prems"(3)] .
      then show ?thesis using e m by auto
    next
      case ge: False
      have e: "bisect_right a x lo hi = bisect_right a x (?mid + 1) hi"
        using True ge by (subst bisect_right.simps) (simp add: Let_def)
      have le: "?mid + 1 \<le> hi" using m by simp
      have pre: "?mid + 1 = 0 \<or> a ! (?mid + 1 - 1) \<le> x" using ge by simp
      have "?mid + 1 \<le> bisect_right a x (?mid + 1) hi \<and> bisect_right a x (?mid + 1) hi \<le> hi
           \<and> x < a ! bisect_right a x (?mid + 1) hi
           \<and> (bisect_right a x (?mid + 1) hi = 0 \<or> a ! (bisect_right a x (?mid + 1) hi - 1) \<le> x)"
        using "1.IH"(2)[OF True refl ge le "1.prems"(2) pre] .
      then show ?thesis using e m by auto
    qed
  qed
qed

lemma choices_positive:
  assumes "length pop = length ws" and "0 < sum_list ws" and "0 \<le> r" and "r < 1"
  shows "\<exists>i<length ws. choices pop ws r = Inr (pop ! i) \<and> 0 < ws ! i"
proof -
  have ne: "ws \<noteq> []" using assms(2) by auto
  let ?cum = "accumulate ws" and ?x = "r * sum_list ws"
  let ?n = "length pop"
  have lc: "length ?cum = length ws" by (simp add: accumulate_def accumulate_from_length)
  have cne: "?cum \<noteq> []" using ne lc by auto
  have tot: "last ?cum = sum_list ws" by (rule accumulate_last[OF ne])
  have x0: "0 \<le> ?x" using assms(2,3) by simp
  have x1: "?x < sum_list ws" using assms(2,4) by simp
  have hi: "?cum ! (?n - 1) = sum_list ws"
    using tot cne lc assms(1) by (simp add: last_conv_nth)
  let ?i = "bisect_right ?cum ?x 0 (?n - 1)"
  have inv: "0 \<le> ?i \<and> ?i \<le> ?n - 1 \<and> ?x < ?cum ! ?i \<and> (?i = 0 \<or> ?cum ! (?i - 1) \<le> ?x)"
    by (rule bisect_right_inv) (use x1 hi in auto)
  have il: "?i < length ws" using inv ne assms(1) by (cases ws) auto
  have pos: "0 < ws ! ?i"
  proof (cases "?i = 0")
    case True
    then have "?x < ws ! 0" using inv accumulate_first[OF ne] by simp
    then show ?thesis using x0 True by simp
  next
    case False
    then obtain j where j: "?i = Suc j" by (cases ?i) auto
    have "?cum ! Suc j = ?cum ! j + ws ! Suc j"
      by (rule accumulate_step) (use il j in simp)
    moreover have "?cum ! j \<le> ?x" "?x < ?cum ! Suc j" using inv j by auto
    ultimately show ?thesis using j by simp
  qed
  have "choices pop ws r = Inr (pop ! ?i)"
    using assms(1,2) lc cne tot by (simp add: choices_def Let_def)
  then show ?thesis using il pos by blast
qed

lemma sum_list_pos_member:
  assumes "\<forall>x\<in>set ws. (0::rat) \<le> x" and "y \<in> set ws" and "0 < y"
  shows "0 < sum_list ws"
  using assms
proof (induction ws)
  case Nil
  then show ?case by simp
next
  case (Cons w ws)
  have nn: "0 \<le> sum_list ws" using Cons.prems(1) by (simp add: sum_list_nonneg)
  show ?case
  proof (cases "y = w")
    case True
    then show ?thesis using nn Cons.prems(3) by simp
  next
    case False
    then have "0 < sum_list ws" using Cons by simp
    moreover have "0 \<le> w" using Cons.prems(1) by simp
    ultimately show ?thesis by simp
  qed
qed

lemma unpicked_exists:
  assumes "distinct picks" and "\<forall>n\<in>set picks. 1 \<le> n \<and> n \<le> max_n"
    and "int (length picks) < max_n"
  shows "\<exists>n. 1 \<le> n \<and> n \<le> max_n \<and> n \<notin> set picks"
proof (rule ccontr)
  assume "\<not> ?thesis"
  then have "{1..max_n} \<subseteq> set picks" by auto
  then have "card {1..max_n} \<le> card (set picks)" by (intro card_mono) simp_all
  moreover have "card {1..max_n} = nat max_n" by simp
  moreover have "card (set picks) = length picks" using assms(1) by (rule distinct_card)
  ultimately have "nat max_n \<le> length picks" by simp
  then show False using assms(3) by linarith
qed

lemma slice_weights:
  assumes "1 \<le> max_n" and "length base = nat (max_n + 1)"
  shows "length (py_slice_from base 1) = nat max_n"
    and "i < nat max_n \<Longrightarrow> py_slice_from base 1 ! i = base ! nat (1 + int i)"
    and "i < nat max_n \<Longrightarrow> range1 max_n ! i = 1 + int i"
proof -
  have b: "py_bound (length base) 1 = 1" using assms by (simp add: py_bound_def)
  have l: "length base = Suc (nat max_n)" using assms by linarith
  show "length (py_slice_from base 1) = nat max_n"
    unfolding py_slice_from_def b using l by simp
  show "py_slice_from base 1 ! i = base ! nat (1 + int i)" if "i < nat max_n"
    unfolding py_slice_from_def b using that l by (simp add: nat_add_distrib)
  show "range1 max_n ! i = 1 + int i" if "i < nat max_n"
    using that by (simp add: range1_def)
qed

lemma pick_loop_inv:
  assumes "1 \<le> max_n" and "length base = nat (max_n + 1)"
    and "distinct picks"
    and "\<forall>n\<in>set picks. 1 \<le> n \<and> n \<le> max_n \<and> base ! nat n = 0"
    and "\<forall>n. 1 \<le> n \<and> n \<le> max_n \<and> n \<notin> set picks \<longrightarrow> 0 < base ! nat n"
    and "int (length picks) \<le> count" and "count \<le> max_n"
    and "count \<le> int (length picks) + int (length rs)"
    and "\<forall>r\<in>set rs. 0 \<le> r \<and> r < 1"
  shows "\<exists>new. pick_loop rs max_n count base picks trace
             = Some (Inr (rev (map fst new) @ picks, trace @ new))
           \<and> int (length new) = count - int (length picks)
           \<and> distinct (map fst new)
           \<and> (\<forall>(i, w)\<in>set new. 1 \<le> i \<and> i \<le> max_n \<and> i \<notin> set picks \<and> 0 < w)"
  using assms(2-6,8,9)
proof (induction rs arbitrary: base picks trace)
  case Nil
  then have "int (length picks) = count" by simp
  then have "pick_loop [] max_n count base picks trace = Some (Inr (rev (map fst []) @ picks, trace @ []))"
    by simp
  then show ?case using \<open>int (length picks) = count\<close> by (intro exI[of _ "[]"]) simp
next
  case (Cons r rs)
  show ?case
  proof (cases "int (length picks) < count")
    case False
    then have eq: "int (length picks) = count" using Cons.prems(5) by simp
    then have "pick_loop (r # rs) max_n count base picks trace
        = Some (Inr (rev (map fst []) @ picks, trace @ []))"
      by simp
    then show ?thesis using eq by (intro exI[of _ "[]"]) simp
  next
    case True
    let ?ws = "py_slice_from base 1" and ?pop = "range1 max_n"
    note sw = slice_weights[OF assms(1) Cons.prems(1)]
    have lp: "length ?pop = length ?ws" by (simp add: sw(1) range1_def)
    have nonneg: "\<forall>x\<in>set ?ws. 0 \<le> x"
    proof
      fix x assume "x \<in> set ?ws"
      then obtain i where i: "i < nat max_n" "x = ?ws ! i"
        using sw(1) by (auto simp: in_set_conv_nth)
      let ?n = "1 + int i"
      have "1 \<le> ?n \<and> ?n \<le> max_n" using i(1) by linarith
      then have "0 \<le> base ! nat ?n"
        using Cons.prems(3,4) by (cases "?n \<in> set picks") (auto simp: less_imp_le)
      then show "0 \<le> x" using i sw(2) by simp
    qed
    have "int (length picks) < max_n" using True assms(7) by simp
    then obtain m where m: "1 \<le> m" "m \<le> max_n" "m \<notin> set picks"
      using unpicked_exists[OF Cons.prems(2)] Cons.prems(3) by blast
    have mp: "0 < base ! nat m" using m Cons.prems(4) by simp
    have mi: "nat m - 1 < nat max_n" using m by linarith
    have "?ws ! (nat m - 1) = base ! nat m"
      using sw(2)[OF mi] m(1) by (simp add: nat_diff_distrib)
    then have "base ! nat m \<in> set ?ws" using mi sw(1) by (metis nth_mem)
    then have tot: "0 < sum_list ?ws" using sum_list_pos_member[OF nonneg _ mp] by simp
    have r: "0 \<le> r" "r < 1" using Cons.prems(7) by auto
    obtain i where i: "i < length ?ws" "choices ?pop ?ws r = Inr (?pop ! i)" "0 < ?ws ! i"
      using choices_positive[OF lp tot r] by blast
    let ?n = "1 + int i"
    have ii: "i < nat max_n" using i(1) sw(1) by simp
    have n: "1 \<le> ?n" "?n \<le> max_n" using ii by linarith+
    have ch: "choices ?pop ?ws r = Inr ?n" using i(2) sw(3)[OF ii] by simp
    have w: "0 < base ! nat ?n" using i(3) sw(2)[OF ii] by simp
    have np: "?n \<notin> set picks"
    proof
      assume "?n \<in> set picks"
      then have "base ! nat ?n = 0" using Cons.prems(3) by blast
      then show False using w by simp
    qed
    have idx: "py_index (length base) ?n = Some (nat ?n)"
      using n Cons.prems(1) by (intro py_index_in_range) linarith+
    let ?base = "base[nat ?n := 0]" and ?picks = "?n # picks"
    let ?trace = "trace @ [(?n, base ! nat ?n)]"
    have step: "pick_loop (r # rs) max_n count base picks trace
        = pick_loop rs max_n count ?base ?picks ?trace"
      using True ch idx np by simp
    have nl: "nat ?n < length base" using n Cons.prems(1) by linarith
    have 1: "length ?base = nat (max_n + 1)" using Cons.prems(1) by simp
    have 2: "distinct ?picks" using Cons.prems(2) np by simp
    have 3: "\<forall>k\<in>set ?picks. 1 \<le> k \<and> k \<le> max_n \<and> ?base ! nat k = 0"
    proof
      fix k assume k: "k \<in> set ?picks"
      show "1 \<le> k \<and> k \<le> max_n \<and> ?base ! nat k = 0"
      proof (cases "k = ?n")
        case True
        then show ?thesis using n nl by simp
      next
        case False
        then have kp: "k \<in> set picks" using k by simp
        then have "1 \<le> k" using Cons.prems(3) by blast
        then have "nat k \<noteq> nat ?n" using False n(1) by linarith
        then show ?thesis using kp Cons.prems(3) by simp
      qed
    qed
    have 4: "\<forall>k. 1 \<le> k \<and> k \<le> max_n \<and> k \<notin> set ?picks \<longrightarrow> 0 < ?base ! nat k"
    proof (intro allI impI)
      fix k assume k: "1 \<le> k \<and> k \<le> max_n \<and> k \<notin> set ?picks"
      then have "nat k \<noteq> nat ?n" using n(1) by auto
      then show "0 < ?base ! nat k" using k Cons.prems(4) by simp
    qed
    have 5: "int (length ?picks) \<le> count" using True by simp
    have 6: "count \<le> int (length ?picks) + int (length rs)" using Cons.prems(6) by simp
    have 7: "\<forall>r\<in>set rs. 0 \<le> r \<and> r < 1" using Cons.prems(7) by simp
    obtain new where new:
      "pick_loop rs max_n count ?base ?picks ?trace = Some (Inr (rev (map fst new) @ ?picks, ?trace @ new))"
      "int (length new) = count - int (length ?picks)"
      "distinct (map fst new)"
      "\<forall>(i, w)\<in>set new. 1 \<le> i \<and> i \<le> max_n \<and> i \<notin> set ?picks \<and> 0 < w"
      using Cons.IH[OF 1 2 3 4 5 6 7] by blast
    let ?new = "(?n, base ! nat ?n) # new"
    have a: "pick_loop (r # rs) max_n count base picks trace
        = Some (Inr (rev (map fst ?new) @ picks, trace @ ?new))"
      using step new(1) by simp
    have b: "int (length ?new) = count - int (length picks)" using new(2) by simp
    have "?n \<notin> fst ` set new" using new(4) by fastforce
    then have c: "distinct (map fst ?new)" using new(3) by simp
    have d: "\<forall>(i, w)\<in>set ?new. 1 \<le> i \<and> i \<le> max_n \<and> i \<notin> set picks \<and> 0 < w"
      using new(4) n np w by auto
    show ?thesis using a b c d by blast
  qed
qed

text \<open>
  Claim C8.  With \<open>1 \<le> count \<le> max_n\<close> and strictly positive weights for \<open>1..max_n\<close>,
  the sampling loop returns after exactly \<open>count\<close> iterations (its trace has \<open>count\<close>
  entries) for every supply of at least \<open>count\<close> values of \<^verbatim>\<open>random()\<close> in \<open>[0, 1)\<close>: each
  iteration selects a number in \<open>1..max_n\<close> whose weight is positive at that moment, no number
  is selected twice, and the pick set is exactly the set of the numbers selected.
\<close>

theorem sampler_terminates:
  assumes "1 \<le> count" and "count \<le> max_n" and "length base = nat (max_n + 1)"
    and "\<forall>n. 1 \<le> n \<and> n \<le> max_n \<longrightarrow> 0 < base ! nat n"
    and "count \<le> int (length rs)" and "\<forall>r\<in>set rs. 0 \<le> r \<and> r < 1"
  shows "\<exists>picks trace. pick_loop rs max_n count base [] [] = Some (Inr (picks, trace))
           \<and> int (length trace) = count
           \<and> (\<forall>(i, w)\<in>set trace. 1 \<le> i \<and> i \<le> max_n \<and> 0 < w)
           \<and> distinct (map fst trace)
           \<and> picks = rev (map fst trace)"
proof -
  have m: "1 \<le> max_n" using assms(1,2) by simp
  obtain new where new:
    "pick_loop rs max_n count base [] [] = Some (Inr (rev (map fst new) @ [], [] @ new))"
    "int (length new) = count - int (length ([]::int list))"
    "distinct (map fst new)"
    "\<forall>(i, w)\<in>set new. 1 \<le> i \<and> i \<le> max_n \<and> i \<notin> set [] \<and> 0 < w"
    using pick_loop_inv[OF m assms(3), of "[]" count rs "[]"] assms(1,2,4,5,6) by auto
  have "\<forall>(i, w)\<in>set new. 1 \<le> i \<and> i \<le> max_n \<and> 0 < w" using new(4) by auto
  then show ?thesis using new(1,2,3) by auto
qed

theorem sampler_terminates_witness:
  "(1::int) \<le> 2 \<and> (2::int) \<le> 3 \<and> length [1, 2, 3, 4 :: rat] = nat (3 + 1)
   \<and> list_all (\<lambda>n. 0 < [1, 2, 3, 4 :: rat] ! nat n) (range1 3)
   \<and> 2 \<le> int (length [0, 1 / 2, 3 / 4 :: rat])
   \<and> list_all (\<lambda>r. 0 \<le> r \<and> r < 1) [0, 1 / 2, 3 / 4 :: rat]
   \<and> (\<exists>picks trace. pick_loop [0, 1 / 2, 3 / 4] 3 2 [1, 2, 3, 4] [] [] = Some (Inr (picks, trace))
         \<and> int (length trace) = 2 \<and> list_all (\<lambda>(i, w). 0 < w) trace
         \<and> distinct (map fst trace) \<and> picks = rev (map fst trace))"
proof -
  have h: "\<forall>n. 1 \<le> n \<and> n \<le> 3 \<longrightarrow> 0 < [1, 2, 3, 4 :: rat] ! nat n"
  proof (intro allI impI)
    fix n :: int assume "1 \<le> n \<and> n \<le> 3"
    then have "n = 1 \<or> n = 2 \<or> n = 3" by auto
    then show "0 < [1, 2, 3, 4 :: rat] ! nat n" by auto
  qed
  have r: "\<forall>r\<in>set [0, 1 / 2, 3 / 4 :: rat]. 0 \<le> r \<and> r < 1" by simp
  have e: "range1 3 = [1, 2, 3]" by (simp add: range1_def upto.simps)
  show ?thesis
    using sampler_terminates[of 2 3 "[1, 2, 3, 4]" "[0, 1 / 2, 3 / 4]", OF _ _ _ h _ r]
    by (simp add: e list_all_iff case_prod_unfold) blast
qed

text \<open>
  Claim C7.  For a snapshot whose hot and overdue rankings cover \<open>1..max_n\<close> and
  \<open>1 \<le> count \<le> max_n\<close>, every execution of \<^verbatim>\<open>smart_pick\<close> (every supply of values of
  \<^verbatim>\<open>random()\<close> in \<open>[0, 1)\<close>, at least \<open>count\<close> of them) returns a line of exactly \<open>count\<close>
  distinct numbers, each in \<open>1..max_n\<close>, sorted ascending.
\<close>

theorem smart_pick_line:
  assumes "covers (hot s) max_n" and "covers (overdue s) max_n"
    and "1 \<le> count" and "count \<le> max_n"
    and "count \<le> int (length rs)" and "\<forall>r\<in>set rs. 0 \<le> r \<and> r < 1"
  shows "\<exists>line. smart_pick rs (Some s) max_n count flavor = Some (Inr line)
           \<and> int (length line) = count \<and> distinct line
           \<and> (\<forall>n\<in>set line. 1 \<le> n \<and> n \<le> max_n) \<and> sorted line"
proof -
  obtain base where b: "smart_weight (Some s) max_n flavor = Inr base"
    "length base = nat (max_n + 1)" "\<forall>n. 1 \<le> n \<and> n \<le> max_n \<longrightarrow> 1 \<le> base ! nat n"
    using smart_weight_covers[OF assms(1,2)] by blast
  have pos: "\<forall>n. 1 \<le> n \<and> n \<le> max_n \<and> n \<notin> set [] \<longrightarrow> 0 < base ! nat n"
  proof (intro allI impI)
    fix n assume "1 \<le> n \<and> n \<le> max_n \<and> n \<notin> set []"
    then have "1 \<le> base ! nat n" using b(3) by simp
    then show "0 < base ! nat n" by simp
  qed
  have m: "1 \<le> max_n" using assms(3,4) by simp
  obtain new where new:
    "pick_loop rs max_n count base [] [] = Some (Inr (rev (map fst new) @ [], [] @ new))"
    "int (length new) = count - int (length ([]::int list))"
    "distinct (map fst new)"
    "\<forall>(i, w)\<in>set new. 1 \<le> i \<and> i \<le> max_n \<and> i \<notin> set [] \<and> 0 < w"
    using pick_loop_inv[OF m b(2) _ _ pos, of count rs "[]"] assms(3,4,5,6) by auto
  let ?line = "sort (rev (map fst new))"
  have 1: "smart_pick rs (Some s) max_n count flavor = Some (Inr ?line)"
    using b(1) new(1) by (simp add: smart_pick_def)
  have 2: "int (length ?line) = count" using new(2) by simp
  have 3: "distinct ?line" using new(3) by simp
  have 4: "\<forall>n\<in>set ?line. 1 \<le> n \<and> n \<le> max_n" using new(4) by auto
  have 5: "sorted ?line" by simp
  show ?thesis using 1 2 3 4 5 by blast
qed

theorem smart_pick_line_witness:
  "covers (hot c4_stats) 12 \<and> covers (overdue c4_stats) 12
   \<and> (1::int) \<le> 6 \<and> (6::int) \<le> 12
   \<and> 6 \<le> int (length [0, 1 / 2, 99 / 100, 1 / 3, 1 / 3, 1 / 3, 0 :: rat])
   \<and> list_all (\<lambda>r. 0 \<le> r \<and> r < 1) [0, 1 / 2, 99 / 100, 1 / 3, 1 / 3, 1 / 3, 0 :: rat]
   \<and> smart_pick [0, 1 / 2, 99 / 100, 1 / 3, 1 / 3, 1 / 3, 0] (Some c4_stats) 12 6 ''hot''
       = Some (Inr [1, 3, 4, 5, 6, 12])
   \<and> (\<exists>line. smart_pick [0, 1 / 2, 99 / 100, 1 / 3, 1 / 3, 1 / 3, 0] (Some c4_stats) 12 6 ''hot''
           = Some (Inr line)
         \<and> int (length line) = 6 \<and> distinct line
         \<and> list_all (\<lambda>n. 1 \<le> n \<and> n \<le> 12) line \<and> sorted line)"
proof -
  have r: "\<forall>r\<in>set [0, 1 / 2, 99 / 100, 1 / 3, 1 / 3, 1 / 3, 0 :: rat]. 0 \<le> r \<and> r < 1"
    by simp
  have e: "smart_pick [0, 1 / 2, 99 / 100, 1 / 3, 1 / 3, 1 / 3, 0] (Some c4_stats) 12 6 ''hot''
       = Some (Inr [1, 3, 4, 5, 6, 12])"
    by (simp only: smart_pick_def c4_weights_eval) code_simp
  have "\<exists>line. smart_pick [0, 1 / 2, 99 / 100, 1 / 3, 1 / 3, 1 / 3, 0] (Some c4_stats) 12 6 ''hot''
           = Some (Inr line)
         \<and> int (length line) = 6 \<and> distinct line
         \<and> (\<forall>n\<in>set line. 1 \<le> n \<and> n \<le> 12) \<and> sorted line"
    by (rule smart_pick_line[OF c4_covers _ _ _ r]) simp_all
  then show ?thesis using c4_covers e by (simp add: list_all_iff)
qed
subsection \<open>Weighting model: flavor hot\<close>

lemma compute_stats_rankings:
  assumes "compute_stats draws max_n count lookback = Inr (Some s)"
  shows "hot s = sorted_desc snd (map (\<lambda>n. (n, freq s ! nat n)) (range1 max_n))"
    and "\<exists>g. overdue s = sorted_desc snd (map (\<lambda>n. (n, g n)) (range1 max_n))"
  using assms
  by (auto simp: compute_stats_def Let_def split: if_splits sum.splits prod.splits)

lemma ranking_covers:
  fixes g :: "int \<Rightarrow> int"
  shows "covers (sorted_desc snd (map (\<lambda>n. (n, g n)) (range1 m))) m"
proof -
  let ?xs = "map (\<lambda>n. (n, g n)) (range1 m)"
  let ?L = "sorted_desc snd ?xs"
  have s: "set ?L = set ?xs" by (simp add: sorted_desc_def)
  have "map fst ?xs = range1 m" by (simp add: comp_def)
  moreover have "distinct (range1 m)" by (simp add: range1_def)
  ultimately have "distinct (map fst ?xs)" by simp
  then have "distinct ?xs \<and> inj_on fst (set ?xs)" by (simp only: distinct_map)
  then have "distinct ?L \<and> inj_on fst (set ?L)" by (simp add: sorted_desc_def)
  then have d: "distinct (map fst ?L)" by (simp only: distinct_map)
  have "set (map fst ?L) = set (range1 m)" using s by (simp add: image_image)
  then show ?thesis using d by (simp add: covers_def list_all_iff)
qed

lemma ranking_lookup:
  fixes g :: "int \<Rightarrow> int"
  assumes "1 \<le> a" "a \<le> m"
  shows "map_of (sorted_desc snd (map (\<lambda>n. (n, g n)) (range1 m))) a = Some (g a)"
proof -
  let ?xs = "map (\<lambda>n. (n, g n)) (range1 m)"
  let ?L = "sorted_desc snd ?xs"
  have c: "covers ?L m" by (rule ranking_covers)
  then have d: "distinct (map fst ?L)" by (simp add: covers_def)
  have "a \<in> set (range1 m)" using assms by (simp add: range1_def)
  then have "(a, g a) \<in> set ?xs" by auto
  then have "(a, g a) \<in> set ?L" by (simp add: sorted_desc_def)
  then show ?thesis using d by simp
qed


lemma ranking_length:
  fixes g :: "int \<Rightarrow> int"
  shows "length (sorted_desc snd (map (\<lambda>n. (n, g n)) (range1 m))) = nat m"
  by (simp add: sorted_desc_def range1_def)

lemma ranking_sorted_pairs:
  fixes g :: "int \<Rightarrow> int"
  shows "sorted_wrt (key_then (\<lambda>p. - snd p) (\<lambda>p q. fst p < fst q))
           (sorted_desc snd (map (\<lambda>n. (n, g n)) (range1 m)))"
proof -
  have "sorted_wrt (<) (range1 m)" by (simp add: range1_def)
  then have "sorted_wrt (\<lambda>p q. fst p < fst q) (map (\<lambda>n. (n, g n)) (range1 m))"
    by (simp add: sorted_wrt_map)
  then show ?thesis unfolding sorted_desc_def by (rule sort_key_then)
qed

lemma ranking_place:
  fixes g :: "int \<Rightarrow> int"
  assumes "1 \<le> a" "a \<le> m"
  defines "L \<equiv> sorted_desc snd (map (\<lambda>n. (n, g n)) (range1 m))"
  shows "\<exists>i<length L. L ! i = (a, g a) \<and> place L a = int i + 1
           \<and> score (rank_dict L) (place L a) = true_div (m + 1 - place L a) m"
proof -
  have c: "covers L m" unfolding L_def by (rule ranking_covers)
  have len: "int (length L) = m" using assms(1,2) unfolding L_def ranking_length by simp
  obtain i where i: "i < length L" "fst (L ! i) = a" "map_of (rank_dict L) a = Some (int i + 1)"
    "score (rank_dict L) (int i + 1) = true_div (int (length L) - int i) (int (length L))"
    using covers_rank[OF c assms(1,2)] by blast
  have "set L = set (map (\<lambda>n. (n, g n)) (range1 m))" by (simp add: L_def sorted_desc_def)
  then have "L ! i \<in> set (map (\<lambda>n. (n, g n)) (range1 m))" using i(1) nth_mem by blast
  then have li: "L ! i = (a, g a)" using i(2) by auto
  have pl: "place L a = int i + 1" using i(3) by (simp add: place_def)
  have "m + 1 - place L a = int (length L) - int i" using pl len by simp
  then have "score (rank_dict L) (place L a) = true_div (m + 1 - place L a) m"
    using i(4) pl len by simp
  then show ?thesis using i(1) li pl by blast
qed

lemma ranking_before:
  fixes g :: "int \<Rightarrow> int"
  assumes "1 \<le> a" "a \<le> m" "1 \<le> b" "b \<le> m"
    and "g b < g a \<or> (g a = g b \<and> a < b)"
  defines "L \<equiv> sorted_desc snd (map (\<lambda>n. (n, g n)) (range1 m))"
  shows "place L a < place L b"
proof -
  let ?Q = "key_then (\<lambda>p. - snd p) (\<lambda>p q. fst p < fst q) :: int \<times> int \<Rightarrow> int \<times> int \<Rightarrow> bool"
  have sw: "sorted_wrt ?Q L" unfolding L_def by (rule ranking_sorted_pairs)
  obtain i where i: "i < length L" "L ! i = (a, g a)" "place L a = int i + 1"
    using ranking_place[OF assms(1,2), of g] unfolding L_def by blast
  obtain j where j: "j < length L" "L ! j = (b, g b)" "place L b = int j + 1"
    using ranking_place[OF assms(3,4), of g] unfolding L_def by blast
  have q: "?Q (L ! i) (L ! j)"
    using assms(5) by (auto simp: key_then_def i(2) j(2))
  have asym: "\<not> ?Q y x" if "?Q x y" for x y
    using that by (auto simp: key_then_def)
  have "i < j"
    by (rule sorted_wrt_index_less[OF sw i(1) j(1) q]) (rule asym)
  then show ?thesis using i(3) j(3) by simp
qed

lemma distinct_fst_index:
  assumes "distinct (map fst L)" "k < length L" "j < length L" "fst (L ! k) = fst (L ! j)"
  shows "k = j"
  using nth_eq_iff_index_eq[of "map fst L" k j] assms by simp

lemma ranking_between:
  fixes g :: "int \<Rightarrow> int"
  assumes "1 \<le> b" "b < a" "a \<le> m" and "g a = g b"
  defines "L \<equiv> sorted_desc snd (map (\<lambda>n. (n, g n)) (range1 m))"
  shows "place L a - place L b = int (length (filter (\<lambda>n. g n = g a) [b..a - 1]))"
proof -
  let ?Q = "key_then (\<lambda>p. - snd p) (\<lambda>p q. fst p < fst q) :: int \<times> int \<Rightarrow> int \<times> int \<Rightarrow> bool"
  have sw: "sorted_wrt ?Q L" unfolding L_def by (rule ranking_sorted_pairs)
  have asym: "\<not> ?Q y x" if "?Q x y" for x y
    using that by (auto simp: key_then_def)
  have c: "covers L m" unfolding L_def by (rule ranking_covers)
  then have d: "distinct (map fst L)" by (simp add: covers_def)
  have a: "1 \<le> a" "a \<le> m" and b: "1 \<le> b" "b \<le> m" using assms(1,2,3) by auto
  obtain i where i: "i < length L" "L ! i = (a, g a)" "place L a = int i + 1"
    using ranking_place[OF a, of g] unfolding L_def by blast
  obtain j where j: "j < length L" "L ! j = (b, g b)" "place L b = int j + 1"
    using ranking_place[OF b, of g] unfolding L_def by blast
  have "place L b < place L a"
    unfolding L_def by (rule ranking_before[OF b a]) (use assms(2,4) in simp)
  then have ji: "j < i" using i(3) j(3) by simp
  let ?S = "{n. b \<le> n \<and> n < a \<and> g n = g a}"
  have img: "(\<lambda>k. fst (L ! k)) ` {j..<i} = ?S"
  proof (intro set_eqI iffI)
    fix n assume "n \<in> (\<lambda>k. fst (L ! k)) ` {j..<i}"
    then obtain k where k: "j \<le> k" "k < i" "n = fst (L ! k)" by auto
    have kl: "k < length L" using k(2) i(1) by simp
    have "set L = set (map (\<lambda>n. (n, g n)) (range1 m))" by (simp add: L_def sorted_desc_def)
    then have "L ! k \<in> set (map (\<lambda>n. (n, g n)) (range1 m))" using kl nth_mem by blast
    then have lk: "L ! k = (n, g n)" using k(3) by auto
    have q2: "?Q (L ! k) (L ! i)"
      by (rule sorted_wrt_nth_less[OF sw k(2) i(1)])
    then have u: "g a < g n \<or> (g n = g a \<and> n < a)"
      by (auto simp: key_then_def lk i(2))
    show "n \<in> ?S"
    proof (cases "k = j")
      case True
      then have "n = b" using lk j(2) by simp
      then show ?thesis using assms(2) assms(4)[symmetric] by simp
    next
      case False
      then have "j < k" using k(1) by simp
      then have "?Q (L ! j) (L ! k)"
        by (rule sorted_wrt_nth_less[OF sw _ kl])
      then have v: "g n < g b \<or> (g b = g n \<and> b < n)"
        by (auto simp: key_then_def lk j(2))
      have "\<not> g n < g b" using u assms(4) by linarith
      then have v': "g b = g n" "b < n" using v by blast+
      have "\<not> g a < g n" using v'(1) assms(4) by linarith
      then have "n < a" using u by blast
      then show ?thesis using v' assms(4) by simp
    qed
  next
    fix n assume "n \<in> ?S"
    then have n: "b \<le> n" "n < a" "g n = g a" by auto
    have nr: "1 \<le> n" "n \<le> m" using n(1,2) assms(1,3) by auto
    obtain k where k: "k < length L" "L ! k = (n, g n)"
      using ranking_place[OF nr, of g] unfolding L_def by blast
    have "?Q (L ! k) (L ! i)" using n(2,3) by (simp add: key_then_def k(2) i(2))
    then have ki: "k < i" by (rule sorted_wrt_index_less[OF sw k(1) i(1)]) (rule asym)
    have jk: "j \<le> k"
    proof (cases "n = b")
      case True
      then have "fst (L ! k) = fst (L ! j)" using k(2) j(2) by simp
      then have "k = j" by (rule distinct_fst_index[OF d k(1) j(1)])
      then show ?thesis by simp
    next
      case False
      then have "b < n" using n(1) by simp
      then have "?Q (L ! j) (L ! k)" using n(3) assms(4) by (simp add: key_then_def k(2) j(2))
      then have "j < k" by (rule sorted_wrt_index_less[OF sw j(1) k(1)]) (rule asym)
      then show ?thesis by simp
    qed
    have "n = fst (L ! k)" using k(2) by simp
    then show "n \<in> (\<lambda>k. fst (L ! k)) ` {j..<i}" using jk ki by auto
  qed
  have inj: "inj_on (\<lambda>k. fst (L ! k)) {j..<i}"
  proof (rule inj_onI)
    fix x y assume xy: "x \<in> {j..<i}" "y \<in> {j..<i}" "fst (L ! x) = fst (L ! y)"
    then have l: "x < length L" "y < length L" using i(1) by auto
    show "x = y" by (rule distinct_fst_index[OF d l xy(3)])
  qed
  have "card ?S = card {j..<i}" unfolding img[symmetric] using inj by (rule card_image)
  then have cs: "int (card ?S) = int i - int j" using ji by simp
  have "length (filter (\<lambda>n. g n = g a) [b..a - 1]) = card ({n. g n = g a} \<inter> set [b..a - 1])"
    by (rule distinct_length_filter) simp
  moreover have "{n. g n = g a} \<inter> set [b..a - 1] = ?S" by auto
  ultimately have "int (length (filter (\<lambda>n. g n = g a) [b..a - 1])) = int i - int j"
    using cs by simp
  then show ?thesis using i(3) j(3) by simp
qed

lemma abs_le_D:
  fixes x y e :: rat
  assumes "\<bar>x - y\<bar> \<le> e"
  shows "y - e \<le> x" and "x \<le> y + e"
  using assms by (simp_all add: abs_le_iff)

lemma hot_weight_error:
  fixes p q N :: int
  assumes "1 \<le> p" "p \<le> N" "1 \<le> q" "q \<le> N"
  shows "\<bar>float_add 1 (flavor_bonus ''hot'' (true_div p N) (true_div q N))
           - (1 + (4 * of_int p + of_int q) / (2 * of_int N))\<bar> \<le> 13 / 2 ^ 53"
proof -
  define x :: rat where "x = of_int p / of_int N"
  define y :: rat where "y = of_int q / of_int N"
  define eps :: rat where "eps = 1 / 2 ^ 52"
  have N: "0 < (of_int N :: rat)" using assms(1,2) by simp
  have x: "0 \<le> x" "x \<le> 1" using assms(1,2) N by (simp_all add: x_def)
  have y: "0 \<le> y" "y \<le> 1" using assms(3,4) N by (simp_all add: y_def)
  have eps: "0 < eps" "eps \<le> 1 / 100" by (simp_all add: eps_def)
  define hr where "hr = round_float x"
  define orank where "orank = round_float y"
  define t1 where "t1 = round_float (2 * hr)"
  define t2 where "t2 = round_float (1 / 2 * orank)"
  define s where "s = round_float (t1 + t2)"
  define w where "w = round_float (1 + s)"
  have hr0: "0 \<le> hr" unfolding hr_def using x(1) by (rule round_float_nonneg)
  have hr: "x - eps \<le> hr" "hr \<le> x + eps"
    using abs_le_D[OF round_float_error[of x]] x unfolding hr_def eps_def by simp_all
  have or0: "0 \<le> orank" unfolding orank_def using y(1) by (rule round_float_nonneg)
  have orank: "y - eps \<le> orank" "orank \<le> y + eps"
    using abs_le_D[OF round_float_error[of y]] y unfolding orank_def eps_def by simp_all
  have "0 \<le> 2 * hr" "2 * hr < 4" using hr0 hr(2) x(2) eps by simp_all
  then have t1: "2 * hr - eps \<le> t1" "t1 \<le> 2 * hr + eps" and t10: "0 \<le> t1"
    using abs_le_D[OF round_float_error[of "2 * hr"]] round_float_nonneg[of "2 * hr"]
    unfolding t1_def eps_def by simp_all
  have "0 \<le> 1 / 2 * orank" "1 / 2 * orank < 4" using or0 orank(2) y(2) eps by simp_all
  then have t2: "1 / 2 * orank - eps \<le> t2" "t2 \<le> 1 / 2 * orank + eps" and t20: "0 \<le> t2"
    using abs_le_D[OF round_float_error[of "1 / 2 * orank"]] round_float_nonneg[of "1 / 2 * orank"]
    unfolding t2_def eps_def by simp_all
  have "0 \<le> t1 + t2" "t1 + t2 < 4" using t10 t20 t1(2) t2(2) hr(2) orank(2) x(2) y(2) eps by simp_all
  then have s: "t1 + t2 - eps \<le> s" "s \<le> t1 + t2 + eps" and s0: "0 \<le> s"
    using abs_le_D[OF round_float_error[of "t1 + t2"]] round_float_nonneg[of "t1 + t2"]
    unfolding s_def eps_def by simp_all
  have "0 \<le> 1 + s" "1 + s < 4" using s0 s(2) t1(2) t2(2) hr(2) orank(2) x(2) y(2) eps by simp_all
  then have w: "1 + s - eps \<le> w" "w \<le> 1 + s + eps"
    using abs_le_D[OF round_float_error[of "1 + s"]]
    unfolding w_def eps_def by simp_all
  have e: "(1 + (4 * of_int p + of_int q) / (2 * of_int N) :: rat) = 1 + 2 * x + 1 / 2 * y"
    using N by (simp add: x_def y_def field_simps)
  have "1 + 2 * x + 1 / 2 * y - 13 / 2 * eps \<le> w" "w \<le> 1 + 2 * x + 1 / 2 * y + 13 / 2 * eps"
    using hr orank t1 t2 s w by linarith+
  then have "w - (1 + 2 * x + 1 / 2 * y) \<le> 13 / 2 * eps"
    "- (w - (1 + 2 * x + 1 / 2 * y)) \<le> 13 / 2 * eps" by linarith+
  then have "\<bar>w - (1 + 2 * x + 1 / 2 * y)\<bar> \<le> 13 / 2 * eps" by (rule abs_leI)
  moreover have "13 / 2 * eps = 13 / 2 ^ 53" by (simp add: eps_def)
  moreover have "float_add 1 (flavor_bonus ''hot'' (true_div p N) (true_div q N)) = w"
    by (simp add: w_def s_def t1_def t2_def hr_def orank_def x_def y_def flavor_bonus_def
        float_add_def float_mul_def true_div_def)
  ultimately show ?thesis unfolding e by simp
qed

lemma hot_weight_gap:
  fixes pa qa pb qb N :: int
  assumes "1 \<le> pa" "pa \<le> N" "1 \<le> qa" "qa \<le> N" "1 \<le> pb" "pb \<le> N" "1 \<le> qb" "qb \<le> N"
    and "N \<le> 2 ^ 47" and "4 * pb + qb < 4 * pa + qa"
  shows "float_add 1 (flavor_bonus ''hot'' (true_div pb N) (true_div qb N))
           < float_add 1 (flavor_bonus ''hot'' (true_div pa N) (true_div qa N))"
proof -
  let ?wa = "float_add 1 (flavor_bonus ''hot'' (true_div pa N) (true_div qa N))"
  let ?wb = "float_add 1 (flavor_bonus ''hot'' (true_div pb N) (true_div qb N))"
  define ea :: rat where "ea = 1 + (4 * of_int pa + of_int qa) / (2 * of_int N)"
  define eb :: rat where "eb = 1 + (4 * of_int pb + of_int qb) / (2 * of_int N)"
  have a: "ea - 13 / 2 ^ 53 \<le> ?wa"
    using abs_le_D(1)[OF hot_weight_error[OF assms(1,2,3,4)]] by (simp add: ea_def)
  have b: "?wb \<le> eb + 13 / 2 ^ 53"
    using abs_le_D(2)[OF hot_weight_error[OF assms(5,6,7,8)]] by (simp add: eb_def)
  have N: "0 < (of_int N :: rat)" using assms(1,2) by simp
  have "(of_int N :: rat) \<le> of_int (2 ^ 47)" using assms(9) by (simp only: of_int_le_iff)
  then have N2: "2 * (of_int N :: rat) \<le> 2 ^ 48" by simp
  have "4 * pb + qb + 1 \<le> 4 * pa + qa" using assms(10) by simp
  then have "(of_int (4 * pb + qb + 1) :: rat) \<le> of_int (4 * pa + qa)" by (simp only: of_int_le_iff)
  then have k: "(4 * of_int pb + of_int qb :: rat) + 1 \<le> 4 * of_int pa + of_int qa" by simp
  have "eb + 1 / (2 * of_int N) = 1 + ((4 * of_int pb + of_int qb) + 1) / (2 * of_int N)"
    by (simp add: eb_def add_divide_distrib)
  also have "\<dots> \<le> ea"
    unfolding ea_def using k N by (simp add: divide_right_mono)
  finally have g: "eb + 1 / (2 * of_int N) \<le> ea" .
  have "(1::rat) / 2 ^ 48 \<le> 1 / (2 * of_int N)" using N N2 by (simp add: frac_le)
  then have "eb + 1 / 2 ^ 48 \<le> ea" using g by simp
  moreover have "(13::rat) / 2 ^ 53 + 13 / 2 ^ 53 < 1 / 2 ^ 48" by simp
  ultimately show ?thesis using a b by linarith
qed

lemma place_bounds:
  fixes g :: "int \<Rightarrow> int"
  assumes "1 \<le> a" "a \<le> m"
  defines "L \<equiv> sorted_desc snd (map (\<lambda>n. (n, g n)) (range1 m))"
  shows "1 \<le> m + 1 - place L a" and "m + 1 - place L a \<le> m"
proof -
  obtain i where i: "i < length L" "place L a = int i + 1"
    using ranking_place[OF assms(1,2), of g] unfolding L_def by blast
  have "length L = nat m" unfolding L_def by (rule ranking_length)
  then have "int i < m" using i(1) by simp
  then show "1 \<le> m + 1 - place L a" and "m + 1 - place L a \<le> m" using i(2) by simp_all
qed

text \<open>
  Claim C4, as stated, fails.  In the snapshot of three draws of six numbers out of
  \<open>1..12\<close> below, number 12 has the highest frequency (2) and the highest recency gap (2),
  number 1 has the same gap and a lower frequency (1), and under flavor \<^verbatim>\<open>hot\<close> the weight
  of 12, the float next to \<open>59/24\<close>, is below the weight \<open>5/2\<close> of 1: the overdue ranking
  breaks the tie of the gaps by ascending number, which puts 1 five places ahead of 12,
  while 12 is one place ahead of 1 in the hot ranking.
\<close>

theorem hot_weight_counterexample:
  "compute_stats c4_draws 12 6 None = Inr (Some c4_stats)
   \<and> smart_weight (Some c4_stats) 12 ''hot'' = Inr c4_weights
   \<and> list_all (\<lambda>n. freq c4_stats ! nat n \<le> freq c4_stats ! 12) (range1 12)
   \<and> list_all (\<lambda>(n, g). g \<le> 2) (overdue c4_stats)
   \<and> map_of (overdue c4_stats) 12 = Some 2
   \<and> map_of (overdue c4_stats) 1 = Some 2
   \<and> freq c4_stats ! 1 < freq c4_stats ! 12
   \<and> c4_weights ! 1 = 5 / 2 \<and> c4_weights ! 12 = 5535674541976235 / 2251799813685248
   \<and> c4_weights ! 12 < c4_weights ! 1"
proof -
  have "list_all (\<lambda>n. freq c4_stats ! nat n \<le> freq c4_stats ! 12) (range1 12)
   \<and> list_all (\<lambda>(n, g). g \<le> 2) (overdue c4_stats)
   \<and> map_of (overdue c4_stats) 12 = Some 2
   \<and> map_of (overdue c4_stats) 1 = Some 2
   \<and> freq c4_stats ! 1 < freq c4_stats ! 12
   \<and> c4_weights ! 1 = 5 / 2 \<and> c4_weights ! 12 = 5535674541976235 / 2251799813685248
   \<and> c4_weights ! 12 < c4_weights ! 1"
    by code_simp
  then show ?thesis using c4_stats_eval c4_weights_eval by simp
qed

text \<open>
  Claim C4, amended.  In a snapshot computed by \<^verbatim>\<open>compute_stats\<close> over \<open>1..max_n\<close>,
  \<open>max_n \<le> 2^47\<close>, let \<open>a\<close> have a higher frequency than \<open>b\<close> and the same recency gap.
  Then \<open>a\<close> stands \<open>d \<ge> 1\<close> places before \<open>b\<close> in the hot ranking; let \<open>t\<close> be the
  number of those among \<open>b, \<dots>, a - 1\<close> that have this gap too (for \<open>b < a\<close> it is the
  number of places by which \<open>b\<close> stands before \<open>a\<close> in the overdue ranking, and \<open>t = 0\<close>
  for \<open>a < b\<close>).  Under flavor \<^verbatim>\<open>hot\<close> the weight of \<open>a\<close> is strictly greater than that of
  \<open>b\<close> when \<open>t < 4 * d\<close>, and strictly smaller when \<open>t > 4 * d\<close>.
\<close>

theorem hot_weight_order:
  assumes "compute_stats draws max_n count lookback = Inr (Some s)"
    and "1 \<le> a" and "a \<le> max_n" and "1 \<le> b" and "b \<le> max_n"
    and "max_n \<le> 2 ^ 47"
    and "freq s ! nat b < freq s ! nat a"
    and "map_of (overdue s) a = map_of (overdue s) b"
  shows "\<exists>w. smart_weight (Some s) max_n ''hot'' = Inr w
           \<and> 1 \<le> hot_lead s a b
           \<and> (b < a \<longrightarrow> place (overdue s) a - place (overdue s) b = gap_ties s a b)
           \<and> (a < b \<longrightarrow> gap_ties s a b = 0 \<and> w ! nat b < w ! nat a)
           \<and> (gap_ties s a b < 4 * hot_lead s a b \<longrightarrow> w ! nat b < w ! nat a)
           \<and> (4 * hot_lead s a b < gap_ties s a b \<longrightarrow> w ! nat a < w ! nat b)"
proof -
  let ?f = "\<lambda>n. freq s ! nat n"
  have h: "hot s = sorted_desc snd (map (\<lambda>n. (n, ?f n)) (range1 max_n))"
    by (rule compute_stats_rankings(1)[OF assms(1)])
  obtain g where o: "overdue s = sorted_desc snd (map (\<lambda>n. (n, g n)) (range1 max_n))"
    using compute_stats_rankings(2)[OF assms(1)] by blast
  have a: "1 \<le> a" "a \<le> max_n" and b: "1 \<le> b" "b \<le> max_n" using assms(2,3,4,5) by auto
  have ch: "covers (hot s) max_n" unfolding h by (rule ranking_covers)
  have co: "covers (overdue s) max_n" unfolding o by (rule ranking_covers)
  have gab: "g a = g b"
    using assms(8) ranking_lookup[OF a, of g] ranking_lookup[OF b, of g] by (simp add: o)
  have ne: "a \<noteq> b" using assms(7) by auto
  have lead: "place (hot s) a < place (hot s) b"
    unfolding h by (rule ranking_before[OF a b]) (use assms(7) in simp)
  then have 1: "1 \<le> hot_lead s a b" by (simp add: hot_lead_def)
  have ties: "gap_ties s a b = int (length (filter (\<lambda>n. g n = g a) [b..a - 1]))"
  proof -
    have "filter (\<lambda>n. map_of (overdue s) n = map_of (overdue s) a) [b..a - 1]
            = filter (\<lambda>n. g n = g a) [b..a - 1]"
    proof (rule filter_cong[OF refl])
      fix n assume "n \<in> set [b..a - 1]"
      then have n: "1 \<le> n" "n \<le> max_n" using assms(3,4) by auto
      show "(map_of (overdue s) n = map_of (overdue s) a) = (g n = g a)"
        using ranking_lookup[OF n, of g] ranking_lookup[OF a, of g] by (simp add: o)
    qed
    then show ?thesis by (simp add: gap_ties_def)
  qed
  have 2: "place (overdue s) a - place (overdue s) b = gap_ties s a b" if "b < a"
    unfolding ties o by (rule ranking_between[OF assms(4) that assms(3) gab])
  have before: "place (overdue s) a < place (overdue s) b" if "a < b"
    unfolding o by (rule ranking_before[OF a b]) (use that gab in simp)
  let ?H = "rank_dict (hot s)" and ?V = "rank_dict (overdue s)"
  obtain w where w: "smart_weight (Some s) max_n ''hot'' = Inr w"
    "\<forall>n. 1 \<le> n \<and> n \<le> max_n \<longrightarrow>
        w ! nat n = float_add 1 (flavor_bonus ''hot'' (score ?H (the (map_of ?H n)))
                      (score ?V (the (map_of ?V n))))"
    using smart_weight_covers[OF ch co, of "''hot''"] by blast
  define P where "P n = max_n + 1 - place (hot s) n" for n
  define Q where "Q n = max_n + 1 - place (overdue s) n" for n
  have val: "w ! nat n = float_add 1 (flavor_bonus ''hot'' (true_div (P n) max_n) (true_div (Q n) max_n))"
    if n: "1 \<le> n" "n \<le> max_n" for n
  proof -
    have "score ?H (place (hot s) n) = true_div (P n) max_n"
      using ranking_place[OF n, of ?f] unfolding h[symmetric] P_def by blast
    moreover have "score ?V (place (overdue s) n) = true_div (Q n) max_n"
      using ranking_place[OF n, of g] unfolding o[symmetric] Q_def by blast
    ultimately show ?thesis using w(2) n by (simp add: place_def)
  qed
  have Pb: "1 \<le> P n" "P n \<le> max_n" if n: "1 \<le> n" "n \<le> max_n" for n
    using place_bounds[OF n, of ?f] unfolding h[symmetric] P_def by simp_all
  have Qb: "1 \<le> Q n" "Q n \<le> max_n" if n: "1 \<le> n" "n \<le> max_n" for n
    using place_bounds[OF n, of g] unfolding o[symmetric] Q_def by simp_all
  have 3: "w ! nat b < w ! nat a" if t: "gap_ties s a b < 4 * hot_lead s a b"
  proof -
    have "place (overdue s) a - place (overdue s) b < 4 * hot_lead s a b"
    proof (cases "b < a")
      case True
      then show ?thesis using 2 t by simp
    next
      case False
      then have "a < b" using ne by simp
      then show ?thesis using before 1 by linarith
    qed
    then have "4 * P b + Q b < 4 * P a + Q a"
      by (simp add: P_def Q_def hot_lead_def)
    then show ?thesis
      unfolding val[OF a] val[OF b]
      by (rule hot_weight_gap[OF Pb[OF a] Qb[OF a] Pb[OF b] Qb[OF b] assms(6)])
  qed
  have 4: "w ! nat a < w ! nat b" if t: "4 * hot_lead s a b < gap_ties s a b"
  proof -
    have "0 < gap_ties s a b" using t 1 by linarith
    then have "[b..a - 1] \<noteq> []" by (auto simp: gap_ties_def)
    then have "b < a" by simp
    then have "4 * hot_lead s a b < place (overdue s) a - place (overdue s) b"
      using 2 t by simp
    then have "4 * P a + Q a < 4 * P b + Q b"
      by (simp add: P_def Q_def hot_lead_def)
    then show ?thesis
      unfolding val[OF a] val[OF b]
      by (rule hot_weight_gap[OF Pb[OF b] Qb[OF b] Pb[OF a] Qb[OF a] assms(6)])
  qed
  have 5: "gap_ties s a b = 0 \<and> w ! nat b < w ! nat a" if "a < b"
  proof -
    have "gap_ties s a b = 0" using that by (simp add: gap_ties_def)
    then show ?thesis using 3 1 by simp
  qed
  show ?thesis using w(1) 1 2 3 4 5 by blast
qed

theorem hot_weight_order_witness:
  "compute_stats c4_draws 12 6 None = Inr (Some c4_stats)
   \<and> (1::int) \<le> 5 \<and> (5::int) \<le> 12 \<and> (1::int) \<le> 1 \<and> (1::int) \<le> 12 \<and> (12::int) \<le> 2 ^ 47
   \<and> freq c4_stats ! nat 1 < freq c4_stats ! nat 5
   \<and> map_of (overdue c4_stats) 5 = map_of (overdue c4_stats) 1
   \<and> hot_lead c4_stats 5 1 = 3 \<and> gap_ties c4_stats 5 1 = 4
   \<and> (\<exists>w. smart_weight (Some c4_stats) 12 ''hot'' = Inr w \<and> w ! nat 1 < w ! nat 5)"
proof -
  have f: "freq c4_stats ! nat 1 < freq c4_stats ! nat 5" by code_simp
  have g: "map_of (overdue c4_stats) 5 = map_of (overdue c4_stats) 1" by code_simp
  have l: "hot_lead c4_stats 5 1 = 3" by code_simp
  have t: "gap_ties c4_stats 5 1 = 4" by code_simp
  have "\<exists>w. smart_weight (Some c4_stats) 12 ''hot'' = Inr w \<and> w ! nat 1 < w ! nat 5"
    using hot_weight_order[OF c4_stats_eval _ _ _ _ _ f g] by (simp add: l t) blast
  then show ?thesis using c4_stats_eval f g l t by simp
qed

subsection \<open>Parsers: main numbers of the records\<close>

lemma make_record_main:
  assumes "make_record date_iso nums count = Inr ds" and "1 \<le> count" and "r \<in> set ds"
  shows "\<exists>bonus. r = (date_iso, take (nat count) nums, bonus) \<and> nat count \<le> length nums"
proof -
  have le: "count \<le> int (length nums)"
    using assms(1,3) by (auto simp: make_record_def split: if_splits)
  have sl: "py_slice_to nums count = take (nat count) nums"
    using assms(2) le by (simp add: py_slice_to_def py_bound_def min_def)
  show ?thesis
    using assms(1,3) le sl
    by (auto simp: make_record_def split: if_splits option.splits)
qed

lemma make_record_ok:
  assumes "make_record date_iso nums count = Inr ds" and "1 \<le> count"
    and "\<forall>n\<in>set nums. 1 \<le> n \<and> n \<le> max_n" and "r \<in> set ds"
  shows "main_ok max_n count r" and "fst r = date_iso" and "distinct nums \<Longrightarrow> main_distinct r"
proof -
  obtain bonus where r: "r = (date_iso, take (nat count) nums, bonus)" "nat count \<le> length nums"
    using make_record_main[OF assms(1,2,4)] by blast
  have "\<forall>n\<in>set (take (nat count) nums). 1 \<le> n \<and> n \<le> max_n"
    using assms(3) by (meson in_set_takeD)
  then show "main_ok max_n count r"
    using r assms(2) by (simp add: main_ok_def list_all_iff)
  show "fst r = date_iso" using r by simp
  show "main_distinct r" if "distinct nums"
    using r that by (simp add: main_distinct_def)
qed

lemma ints_in_range_bounds:
  "ints_in_range ns max_n = Inr vs \<Longrightarrow> \<forall>v\<in>set vs. 1 \<le> v \<and> v \<le> max_n"
proof (induction ns arbitrary: vs)
  case Nil
  then show ?case by simp
next
  case (Cons n ns)
  then show ?case
    by (auto split: option.splits sum.splits if_splits)
qed

lemma update_entries:
  "set (AList.update k v al) \<subseteq> insert (k, v) (set al)"
  by (induction al) auto

lemma dedupe_fold_entries:
  "set (fold (\<lambda>(d, main, bonus) u. AList.update d (main, bonus) u) draws u0)
     \<subseteq> set u0 \<union> set draws"
proof (induction draws arbitrary: u0)
  case Nil
  then show ?case by simp
next
  case (Cons x xs)
  obtain d main bonus where x: "x = (d, main, bonus)" by (cases x)
  have "set (AList.update d (main, bonus) u0) \<subseteq> insert x (set u0)"
    unfolding x by (rule update_entries)
  then show ?case using Cons.IH[of "AList.update d (main, bonus) u0"] by (auto simp: x)
qed

lemma dedupe_fold_distinct:
  "distinct (map fst u0) \<Longrightarrow>
   distinct (map fst (fold (\<lambda>(d, main, bonus) u. AList.update d (main, bonus) u) draws u0))"
proof (induction draws arbitrary: u0)
  case Nil
  then show ?case by simp
next
  case (Cons x xs)
  obtain d main bonus where x: "x = (d, main, bonus)" by (cases x)
  show ?case using Cons by (simp add: x distinct_update)
qed

lemma dedupe_subset:
  assumes "dedupe_by_date draws = Inr rs"
  shows "set rs \<subseteq> set draws"
proof
  fix r assume r: "r \<in> set rs"
  let ?uniq = "fold (\<lambda>(d, main, bonus) u. AList.update d (main, bonus) u) draws []"
  have rs: "rs = map (\<lambda>d. (d, the (map_of ?uniq d))) (sort (map fst ?uniq))"
    using assms by (simp add: dedupe_by_date_def Let_def split: if_splits)
  then obtain d where d: "d \<in> set (map fst ?uniq)" "r = (d, the (map_of ?uniq d))"
    using r by auto
  have dist: "distinct (map fst ?uniq)" by (rule dedupe_fold_distinct) simp
  obtain v where v: "(d, v) \<in> set ?uniq" using d(1) by auto
  then have "map_of ?uniq d = Some v" using dist by simp
  then have "r \<in> set ?uniq" using d(2) v by simp
  then show "r \<in> set draws" using dedupe_fold_entries[of draws "[]"] by auto
qed

lemma parse_block_ok:
  assumes "parse_block mr max_n count = Inr ds" and "1 \<le> count" and "r \<in> set ds"
  shows "main_ok max_n count r"
proof -
  obtain month rest where mr: "mr = (month, rest)" by (cases mr)
  obtain mdate nums where
    n: "ints_in_range (re_findall number_re (month @ rest)) max_n = Inr nums"
    and m: "make_record (try_parse_date mdate) nums count = Inr ds"
    using assms(1,3)
    by (auto simp: parse_block_def mr Let_def split: option.splits sum.splits)
  show ?thesis
    by (rule make_record_ok(1)[OF m assms(2) ints_in_range_bounds[OF n] assms(3)])
qed

lemma parse_blocks_ok:
  assumes "parse_blocks bs max_n count = Inr ds" and "1 \<le> count" and "r \<in> set ds"
  shows "main_ok max_n count r"
  using assms(1,3)
proof (induction bs arbitrary: ds)
  case Nil
  then show ?case by simp
next
  case (Cons b bs)
  obtain d1 d2 where d: "parse_block b max_n count = Inr d1" "parse_blocks bs max_n count = Inr d2"
    "ds = d1 @ d2"
    using Cons.prems(1) by (auto split: sum.splits)
  show ?case
  proof (cases "r \<in> set d1")
    case True
    then show ?thesis using parse_block_ok[OF d(1) assms(2)] by simp
  next
    case False
    then have "r \<in> set d2" using Cons.prems(2) d(3) by simp
    then show ?thesis using Cons.IH[OF d(2)] by simp
  qed
qed

lemma clean_loop_props:
  "distinct cleaned \<Longrightarrow> distinct (clean_loop vs cleaned)
     \<and> set (clean_loop vs cleaned) = set vs \<union> set cleaned"
  by (induction vs arbitrary: cleaned) auto

lemma cell_numbers_bounds:
  "cell_numbers cs max_n = Inr vs \<Longrightarrow> \<forall>v\<in>set vs. 1 \<le> v \<and> v \<le> max_n"
proof (induction cs arbitrary: vs)
  case Nil
  then show ?case by simp
next
  case (Cons c cs)
  obtain v1 v2 where v: "ints_in_range (re_findall number_re c) max_n = Inr v1"
    "cell_numbers cs max_n = Inr v2" "vs = v1 @ v2"
    using Cons.prems by (auto split: sum.splits)
  show ?case using ints_in_range_bounds[OF v(1)] Cons.IH[OF v(2)] v(3) by auto
qed

lemma parse_row_ok:
  assumes "parse_row cells max_n count = Inr ds" and "1 \<le> count" and "r \<in> set ds"
  shows "main_ok max_n count r \<and> main_distinct r \<and> fst r \<noteq> None"
proof -
  obtain date_iso nums where
    n: "cell_numbers cells max_n = Inr nums"
    and m: "make_record (Some date_iso) (clean_loop nums []) count = Inr ds"
    using assms(1,3)
    by (auto simp: parse_row_def split: if_splits option.splits sum.splits)
  have c: "distinct (clean_loop nums [])" "set (clean_loop nums []) = set nums"
    using clean_loop_props[of "[]" nums] by simp_all
  have b: "\<forall>n\<in>set (clean_loop nums []). 1 \<le> n \<and> n \<le> max_n"
    using cell_numbers_bounds[OF n] c(2) by simp
  show ?thesis
    using make_record_ok[OF m assms(2) b assms(3)] c(1) by simp
qed

lemma parse_rows_ok:
  assumes "parse_rows rows max_n count = Inr ds" and "1 \<le> count" and "r \<in> set ds"
  shows "main_ok max_n count r \<and> main_distinct r \<and> fst r \<noteq> None"
  using assms(1,3)
proof (induction rows arbitrary: ds)
  case Nil
  then show ?case by simp
next
  case (Cons row rows)
  obtain d1 d2 where d: "parse_row row max_n count = Inr d1" "parse_rows rows max_n count = Inr d2"
    "ds = d1 @ d2"
    using Cons.prems(1) by (auto split: sum.splits)
  show ?case
  proof (cases "r \<in> set d1")
    case True
    then show ?thesis using parse_row_ok[OF d(1) assms(2)] by simp
  next
    case False
    then have "r \<in> set d2" using Cons.prems(2) d(3) by simp
    then show ?thesis using Cons.IH[OF d(2)] by simp
  qed
qed

text \<open>
  Claim C3, amended.  With \<open>1 \<le> count\<close>, every record returned by either parser has
  exactly \<open>count\<close> main numbers, each in \<open>1..max_n\<close>; the records of the generic-table
  parser have no duplicate among them.  (The print-layout parser filters by range only:
  see the counterexample below.)
\<close>

theorem parsers_main_numbers:
  assumes "1 \<le> count"
  shows "(parse_wclc_print text max_n count = Inr rs \<longrightarrow> list_all (main_ok max_n count) rs)
       \<and> (parse_generic_tables tables max_n count = Inr rs' \<longrightarrow>
            list_all (main_ok max_n count) rs' \<and> list_all main_distinct rs')"
proof (intro conjI impI)
  assume a: "parse_wclc_print text max_n count = Inr rs"
  then obtain ds where ds: "parse_blocks (blocks_of (tl (re_split month_re text))) max_n count = Inr ds"
    "dedupe_by_date ds = Inr rs"
    by (auto simp: parse_wclc_print_def split: sum.splits)
  show "list_all (main_ok max_n count) rs"
    using dedupe_subset[OF ds(2)] parse_blocks_ok[OF ds(1) assms]
    by (auto simp: list_all_iff)
next
  assume a: "parse_generic_tables tables max_n count = Inr rs'"
  then obtain ds where ds: "parse_rows (concat tables) max_n count = Inr ds"
    "dedupe_by_date ds = Inr rs'"
    by (auto simp: parse_generic_tables_def split: sum.splits)
  have "\<forall>r\<in>set rs'. main_ok max_n count r \<and> main_distinct r"
    using dedupe_subset[OF ds(2)] parse_rows_ok[OF ds(1) assms] by blast
  then show "list_all (main_ok max_n count) rs'" "list_all main_distinct rs'"
    by (auto simp: list_all_iff)
qed


subsection \<open>Print-layout parser: the date of a record\<close>

lemma advance_rest: "advance n (p, rest, g) = (p', r', g') \<Longrightarrow> rest = take n rest @ r' \<and> g' = g"
  by (auto simp: advance_def)

lemma rx_match_suffix:
  "(p', r', g') \<in> set (rx_match ci r (p, rest, g)) \<Longrightarrow> \<exists>u. rest = u @ r'"
proof (induction r arbitrary: p rest g p' r' g')
  case (Lit s)
  then have "advance (length s) (p, rest, g) = (p', r', g')"
    by (auto simp: Let_def split: if_splits)
  then show ?case using advance_rest by blast
next
  case (Cls c)
  then show ?case by (cases rest) (auto split: if_splits)
next
  case (Seq a b)
  then obtain st where st: "st \<in> set (rx_match ci a (p, rest, g))"
    "(p', r', g') \<in> set (rx_match ci b st)" by auto
  obtain p1 r1 g1 where s1: "st = (p1, r1, g1)" by (cases st)
  obtain u where u: "rest = u @ r1" using Seq.IH(1) st(1) s1 by blast
  obtain v where v: "r1 = v @ r'" using Seq.IH(2) st(2) s1 by blast
  show ?case using u v by auto
next
  case (Alt a b)
  then show ?case by auto
next
  case (Opt a)
  then show ?case by auto
next
  case (Rep c lo hi)
  then obtain n where "advance n (p, rest, g) = (p', r', g')"
    by (auto simp: Let_def)
  then show ?case using advance_rest by blast
next
  case WordB
  then show ?case by (auto split: if_splits)
next
  case (Group x a)
  then obtain gs where "(p', r', gs) \<in> set (rx_match ci a (p, rest, g))" by auto
  then show ?case using Group.IH by blast
qed

lemma rx_match_lit_prefix:
  assumes "(p', r', g') \<in> set (rx_match False (Seq (Lit s) b) (p, rest, g))"
  shows "\<exists>u. rest = s @ u @ r'"
proof -
  obtain st where st: "st \<in> set (rx_match False (Lit s) (p, rest, g))"
    "(p', r', g') \<in> set (rx_match False b st)" using assms by auto
  have pre: "take (length s) rest = s" and stv: "st = advance (length s) (p, rest, g)"
    using st(1) by (auto simp: Let_def split: if_splits)
  obtain p1 g1 where s1: "st = (p1, drop (length s) rest, g1)"
    using stv by (simp add: advance_def)
  obtain u where "drop (length s) rest = u @ r'"
    using rx_match_suffix st(2) s1 by blast
  then have "rest = s @ u @ r'" using pre by (metis append_take_drop_id)
  then show ?thesis by blast
qed

lemma taken_is_prefix:
  assumes "rest = s @ u @ r'"
  shows "take (length rest - length r') rest = s @ u"
  using assms by simp

lemma search_from_prefix_gen:
  assumes "\<And>p rest g p' r' g'. (p', r', g') \<in> set (rx_match False r (p, rest, g))
             \<Longrightarrow> \<exists>u. rest = s @ u @ r'"
  shows "search_from r prev str = Some m \<Longrightarrow> \<exists>u. m = s @ u"
proof (induction str arbitrary: prev)
  case Nil
  show ?case
  proof (cases "rx_match False r (prev, [], [])")
    case Nil
    then show ?thesis using Nil.prems by simp
  next
    case (Cons st sts)
    obtain p' r' g' where stv: "st = (p', r', g')" by (cases st)
    have m: "m = []" using Nil.prems Cons by simp
    have "(p', r', g') \<in> set (rx_match False r (prev, [], []))" using Cons stv by simp
    then obtain u where "[] = s @ u @ r'" using assms by blast
    then show ?thesis using m by simp
  qed
next
  case (Cons c cs)
  show ?case
  proof (cases "rx_match False r (prev, c # cs, [])")
    case Nil
    then show ?thesis using Cons by simp
  next
    case (Cons st sts)
    obtain p' r' g' where stv: "st = (p', r', g')" by (cases st)
    have m: "m = take (length (c # cs) - length r') (c # cs)"
      using Cons.prems Cons stv by simp
    have "(p', r', g') \<in> set (rx_match False r (prev, c # cs, []))"
      using Cons stv by simp
    then obtain u where "c # cs = s @ u @ r'" using assms by blast
    then have "m = s @ u" unfolding m by (rule taken_is_prefix)
    then show ?thesis by blast
  qed
qed

lemma re_search_date_prefix:
  assumes "re_search (date_re month) block = Some m"
  shows "\<exists>u. m = month @ u"
proof -
  obtain b where b: "date_re month = Seq (Lit month) b" by (simp add: date_re_def)
  show ?thesis
    using assms unfolding re_search_def b
    by (rule search_from_prefix_gen[rotated]) (rule rx_match_lit_prefix)
qed

lemma month_table:
  "list_all (\<lambda>m. 2 \<le> length m \<and> \<not> is_space (hd m) \<and> \<not> is_space (last m)
       \<and> list_all (\<lambda>c. c \<noteq> CHR '','') m
       \<and> list_all (\<lambda>w. 2 \<le> length w \<and> map lower (take 2 m) \<noteq> map lower (take 2 w)) f_weekday)
     month_names"
  by code_simp

lemma month_facts:
  assumes "month \<in> set month_names"
  shows "2 \<le> length month" "\<not> is_space (hd month)" "\<not> is_space (last month)"
    "\<forall>c\<in>set month. c \<noteq> CHR '',''"
    "\<And>w. w \<in> set f_weekday \<Longrightarrow> 2 \<le> length w \<and> map lower (take 2 month) \<noteq> map lower (take 2 w)"
  using month_table assms by (auto simp: list_all_iff)

lemma format_1:
  "format_rx ''%A %B %d %Y'' =
     Some (Seq (Group CHR ''A'' (alternatives (sorted_desc (\<lambda>s. int (length s)) f_weekday)))
       (Seq (Rep Space 1 None) (Seq (the (directive_rx CHR ''B'')) (Seq (Rep Space 1 None)
         (Seq (the (directive_rx CHR ''d'')) (Seq (Rep Space 1 None)
           (Seq (the (directive_rx CHR ''Y'')) (Lit []))))))))"
  by code_simp

lemma format_2:
  "format_rx ''%A, %B %d, %Y'' =
     Some (Seq (Group CHR ''A'' (alternatives (sorted_desc (\<lambda>s. int (length s)) f_weekday)))
       (Seq (Lit '','') (Seq (Rep Space 1 None) (Seq (the (directive_rx CHR ''B''))
         (Seq (Rep Space 1 None) (Seq (the (directive_rx CHR ''d'')) (Seq (Lit '','')
           (Seq (Rep Space 1 None) (Seq (the (directive_rx CHR ''Y'')) (Lit [])))))))))) "
  by code_simp

lemma format_3:
  "format_rx ''%B %d, %Y'' =
     Some (Seq (the (directive_rx CHR ''B'')) (Seq (Rep Space 1 None)
       (Seq (the (directive_rx CHR ''d'')) (Seq (Lit '','')
         (Seq (Rep Space 1 None) (Seq (the (directive_rx CHR ''Y'')) (Lit [])))))))"
  by code_simp

lemma alternatives_no_match:
  assumes "ws \<noteq> []"
    and "\<forall>w\<in>set ws. \<not> (length w \<le> length t \<and> map lower (take (length w) t) = map lower w)"
  shows "rx_match True (alternatives ws) (p, t, g) = []"
  using assms
proof (induction ws rule: alternatives.induct)
  case 1
  then show ?case by simp
next
  case (2 s)
  then show ?case by (simp add: Let_def)
next
  case (3 s t' ss)
  have "rx_match True (Lit s) (p, t, g) = []" using "3.prems"(2) by (simp add: Let_def)
  moreover have "rx_match True (alternatives (t' # ss)) (p, t, g) = []"
    using "3.IH" "3.prems"(2) by simp
  ultimately show ?case by simp
qed

lemma weekday_no_match:
  assumes "month \<in> set month_names"
  shows "rx_match True (Seq (Group CHR ''A'' (alternatives (sorted_desc (\<lambda>s. int (length s)) f_weekday))) R)
           (p, month @ u, g) = []"
proof -
  let ?ws = "sorted_desc (\<lambda>s. int (length s)) f_weekday"
  have s: "set ?ws = set f_weekday" by (simp add: sorted_desc_def)
  have "length ?ws = length f_weekday" by (simp add: sorted_desc_def)
  moreover have "length f_weekday = 7" by (simp add: f_weekday_def)
  ultimately have ne: "?ws \<noteq> []" by auto
  have no: "\<forall>w\<in>set ?ws. \<not> (length w \<le> length (month @ u)
              \<and> map lower (take (length w) (month @ u)) = map lower w)"
  proof (intro ballI notI)
    fix w assume w: "w \<in> set ?ws"
      and m: "length w \<le> length (month @ u) \<and> map lower (take (length w) (month @ u)) = map lower w"
    have wf: "2 \<le> length w" "map lower (take 2 month) \<noteq> map lower (take 2 w)"
      using month_facts(5)[OF assms, of w] w s by auto
    have "take 2 (map lower (take (length w) (month @ u))) = take 2 (map lower w)"
      using m by simp
    then have a: "map lower (take 2 (take (length w) (month @ u))) = map lower (take 2 w)"
      by (simp only: take_map)
    have b: "take 2 (take (length w) (month @ u)) = take 2 month"
      using wf(1) month_facts(1)[OF assms] by (simp add: min_def)
    have "map lower (take 2 month) = map lower (take 2 w)"
      using a unfolding b .
    then show False using wf(2) by (rule notE[rotated])
  qed
  have "rx_match True (alternatives ?ws) (p, month @ u, g) = []"
    by (rule alternatives_no_match[OF ne no])
  then show ?thesis by simp
qed

lemma lower_comma: "lower c = CHR '','' \<Longrightarrow> c = CHR '',''"
proof (cases "65 \<le> code c \<and> code c \<le> 90")
  case False
  assume "lower c = CHR '',''"
  then show ?thesis using False by (simp add: lower_def)
next
  case True
  assume "lower c = CHR '',''"
  then have "char_of (code c + 32) = CHR '',''" using True by (simp add: lower_def)
  then have "(of_char (char_of (code c + 32) :: char) :: nat) = of_char CHR '',''" by simp
  then have "(code c + 32) mod 256 = 44" by simp
  then show ?thesis using True by simp
qed

lemma lit_comma_fails:
  assumes "comma_free st"
  shows "rx_match ci (Seq (Lit '','') R) st = []"
proof -
  obtain p rest g where st: "st = (p, rest, g)" by (cases st)
  have "rx_match ci (Lit '','') (p, rest, g) = []"
  proof (cases rest)
    case Nil
    then show ?thesis by (simp add: Let_def)
  next
    case (Cons c cs)
    then have "c \<noteq> CHR '',''" using assms st by (auto simp: comma_free_def)
    then have "lower c \<noteq> CHR '',''" using lower_comma by blast
    moreover have "lower CHR '','' = CHR '',''" by code_simp
    ultimately show ?thesis using Cons \<open>c \<noteq> CHR '',''\<close> by (simp add: Let_def)
  qed
  then show ?thesis by (simp add: st)
qed

lemma comma_free_step:
  assumes "comma_free st" and "st' \<in> set (rx_match ci a st)"
  shows "comma_free st'"
proof -
  obtain p rest g where st: "st = (p, rest, g)" by (cases st)
  obtain p' r' g' where st': "st' = (p', r', g')" by (cases st')
  obtain u where "rest = u @ r'" using rx_match_suffix assms(2) st st' by blast
  then show ?thesis using assms(1) by (auto simp: comma_free_def st st')
qed

lemma seq_comma_free:
  assumes "\<And>st'. comma_free st' \<Longrightarrow> rx_match ci b st' = []" and "comma_free st"
  shows "rx_match ci (Seq a b) st = []"
proof -
  have "\<forall>st'\<in>set (rx_match ci a st). rx_match ci b st' = []"
    using assms comma_free_step by blast
  then show ?thesis by (simp add: concat_eq_Nil_conv)
qed

lemma format_3_no_match:
  assumes "comma_free st"
  shows "rx_match ci (Seq B (Seq W (Seq D (Seq (Lit '','') R)))) st = []"
  by (intro seq_comma_free[OF _ assms] seq_comma_free lit_comma_fails)

lemma strip_month:
  assumes "month \<in> set month_names"
  shows "\<exists>v'. strip (month @ v) = month @ v' \<and> set v' \<subseteq> set v"
proof -
  have ne: "month \<noteq> []" using month_facts(1)[OF assms] by auto
  then obtain c cs where m: "month = c # cs" by (cases month) auto
  have "\<not> is_space c" using month_facts(2)[OF assms] m by simp
  then have front: "dropWhile is_space (month @ v) = month @ v" by (simp add: m)
  have lastm: "\<not> is_space (hd (rev month))" using month_facts(3)[OF assms] ne by (simp add: hd_rev)
  have rne: "rev month \<noteq> []" using ne by simp
  have bk: "dropWhile is_space (rev month) = rev month"
    using lastm rne by (cases "rev month") auto
  show ?thesis
  proof (cases "\<forall>x\<in>set (rev v). is_space x")
    case True
    then have "dropWhile is_space (rev v @ rev month) = rev month"
      using bk by (simp add: dropWhile_append)
    then have "strip (month @ v) = month @ []" by (simp add: strip_def front)
    then show ?thesis by (intro exI[of _ "[]"]) simp
  next
    case False
    then have "dropWhile is_space (rev v @ rev month) = dropWhile is_space (rev v) @ rev month"
      by (subst dropWhile_append) (simp only: if_False)
    then have 1: "strip (month @ v) = month @ rev (dropWhile is_space (rev v))"
      by (simp add: strip_def front)
    have "set (dropWhile is_space (rev v)) \<subseteq> set (rev v)"
      by (auto dest: set_dropWhileD)
    then have 2: "set (rev (dropWhile is_space (rev v))) \<subseteq> set v" by simp
    show ?thesis using 1 2 by (intro exI[of _ "rev (dropWhile is_space (rev v))"]) simp
  qed
qed

lemma strptime_month_prefix:
  assumes "month \<in> set month_names" and "CHR '','' \<notin> set (month @ u)"
    and "fmt \<in> set DATE_PATTERNS"
  shows "strptime (month @ u) fmt = None"
proof -
  have cf: "comma_free (None, month @ u, [])" using assms(2) by (simp add: comma_free_def)
  consider "fmt = ''%A %B %d %Y''" | "fmt = ''%A, %B %d, %Y''" | "fmt = ''%B %d, %Y''"
    using assms(3) by (auto simp: DATE_PATTERNS_def)
  then show ?thesis
  proof cases
    case 1
    show ?thesis unfolding strptime_def 1 format_1
      by (simp only: weekday_no_match[OF assms(1)] option.case list.case)
  next
    case 2
    show ?thesis unfolding strptime_def 2 format_2
      by (simp only: weekday_no_match[OF assms(1)] option.case list.case)
  next
    case 3
    show ?thesis unfolding strptime_def 3 format_3
      by (simp only: format_3_no_match[OF cf] option.case list.case)
  qed
qed

lemma try_formats_none:
  "(\<And>fmt. fmt \<in> set fmts \<Longrightarrow> strptime t fmt = None) \<Longrightarrow> try_formats t fmts = None"
  by (induction fmts) auto

lemma try_parse_date_month_prefix:
  assumes "month \<in> set month_names"
  shows "try_parse_date (month @ u) = None"
proof -
  let ?P = "\<lambda>c. c \<noteq> CHR '',''"
  have nm: "CHR '','' \<notin> set month" using month_facts(4)[OF assms] by blast
  then have "\<forall>c\<in>set month. ?P c" by blast
  then have "filter ?P month = month" by (simp only: filter_id_conv)
  then have f: "filter ?P (month @ u) = month @ filter ?P u" by simp
  obtain v' where v': "strip (month @ filter ?P u) = month @ v'" "set v' \<subseteq> set (filter ?P u)"
    using strip_month[OF assms] by blast
  have "CHR '','' \<notin> set v'" using v'(2) by auto
  then have nc: "CHR '','' \<notin> set (month @ v')" using nm by simp
  have "try_formats (month @ v') DATE_PATTERNS = None"
    by (rule try_formats_none) (rule strptime_month_prefix[OF assms nc])
  then show ?thesis unfolding try_parse_date_def f v'(1) .
qed

lemma alternatives_match_member:
  assumes "ws \<noteq> []" and "(p', r', g') \<in> set (rx_match False (alternatives ws) (p, rest, g))"
  shows "\<exists>w\<in>set ws. rest = w @ r'"
  using assms
proof (induction ws rule: alternatives.induct)
  case 1
  then show ?case by simp
next
  case (2 s)
  then have "take (length s) rest = s" "advance (length s) (p, rest, g) = (p', r', g')"
    by (auto simp: Let_def split: if_splits)
  then show ?case using advance_rest by fastforce
next
  case (3 s t ss)
  from "3.prems"(2) consider
    "(p', r', g') \<in> set (rx_match False (Lit s) (p, rest, g))"
    | "(p', r', g') \<in> set (rx_match False (alternatives (t # ss)) (p, rest, g))"
    by auto
  then show ?case
  proof cases
    case 1
    then have "take (length s) rest = s" "advance (length s) (p, rest, g) = (p', r', g')"
      by (auto simp: Let_def split: if_splits)
    then have "rest = s @ r'" using advance_rest by fastforce
    then show ?thesis by simp
  next
    case 2
    then show ?thesis using "3.IH" by auto
  qed
qed

lemma month_match:
  assumes "rx_match False month_re (p, rest, g) = (p', r', g') # sts"
  shows "take (length rest - length r') rest \<in> set month_names"
proof -
  have ne: "month_names \<noteq> []" by (simp add: month_names_def)
  have "(p', r', g') \<in> set (rx_match False (alternatives month_names) (p, rest, g))"
    using assms by (simp add: month_re_def)
  then obtain w where w: "w \<in> set month_names" "rest = w @ r'"
    using alternatives_match_member[OF ne] by blast
  then show ?thesis by simp
qed

lemma split_from_ne: "split_from r prev s skip piece \<noteq> []"
  by (induction s arbitrary: prev skip piece) (auto simp: Let_def split: list.splits)

lemma blocks_after_match:
  "L \<noteq> [] \<Longrightarrow> blocks_of (tl (piece # w # L)) = (w, hd L) # blocks_of (tl L)"
  by (cases L) auto

lemma split_blocks_months:
  "\<forall>b\<in>set (blocks_of (tl (split_from month_re prev s skip piece))). fst b \<in> set month_names"
proof (induction s arbitrary: prev skip piece)
  case Nil
  then show ?case by simp
next
  case (Cons c cs)
  show ?case
  proof (cases "0 < skip")
    case True
    then show ?thesis using Cons.IH by simp
  next
    case False
    show ?thesis
    proof (cases "rx_match False month_re (prev, c # cs, [])")
      case Nil
      then show ?thesis using False Cons.IH by simp
    next
      case (Cons st sts)
      obtain p' r' g' where st: "st = (p', r', g')" by (cases st)
      let ?n = "length (c # cs) - length r'"
      show ?thesis
      proof (cases "?n = 0")
        case True
        then show ?thesis using False Cons st Cons.IH by simp
      next
        case nz: False
        let ?L = "split_from month_re (Some c) cs (?n - 1) []"
        have e: "split_from month_re prev (c # cs) skip piece = piece # take ?n (c # cs) # ?L"
          using False Cons st nz by (simp add: Let_def)
        have m: "take ?n (c # cs) \<in> set month_names"
          using month_match[of prev "c # cs" "[]" p' r' g' sts] Cons st by simp
        have "blocks_of (tl (piece # take ?n (c # cs) # ?L)) = (take ?n (c # cs), hd ?L) # blocks_of (tl ?L)"
          by (rule blocks_after_match) (rule split_from_ne)
        then show ?thesis unfolding e using m Cons.IH by simp
      qed
    qed
  qed
qed

lemma make_record_date:
  "make_record date_iso nums count = Inr ds \<Longrightarrow> r \<in> set ds \<Longrightarrow> fst r = date_iso"
  by (auto simp: make_record_def split: if_splits option.splits)

lemma parse_block_date:
  assumes "parse_block b max_n count = Inr ds" and "fst b \<in> set month_names" and "r \<in> set ds"
  shows "fst r = None"
proof -
  obtain month rest where b: "b = (month, rest)" by (cases b)
  obtain mdate nums where
    s: "re_search (date_re month) (month @ rest) = Some mdate"
    and m: "make_record (try_parse_date mdate) nums count = Inr ds"
    using assms(1,3)
    by (auto simp: parse_block_def b Let_def split: option.splits sum.splits)
  obtain u where "mdate = month @ u" using re_search_date_prefix[OF s] by blast
  then have "try_parse_date mdate = None"
    using try_parse_date_month_prefix assms(2) b by simp
  then show ?thesis using make_record_date[OF m assms(3)] by simp
qed

lemma parse_blocks_date:
  assumes "parse_blocks bs max_n count = Inr ds" and "\<forall>b\<in>set bs. fst b \<in> set month_names"
    and "r \<in> set ds"
  shows "fst r = None"
  using assms
proof (induction bs arbitrary: ds)
  case Nil
  then show ?case by simp
next
  case (Cons b bs)
  obtain d1 d2 where d: "parse_block b max_n count = Inr d1" "parse_blocks bs max_n count = Inr d2"
    "ds = d1 @ d2"
    using Cons.prems(1) by (auto split: sum.splits)
  show ?case
  proof (cases "r \<in> set d1")
    case True
    then show ?thesis using parse_block_date[OF d(1)] Cons.prems(2) by simp
  next
    case False
    then have "r \<in> set d2" using Cons.prems(3) d(3) by simp
    then show ?thesis using Cons.IH[OF d(2)] Cons.prems(2) by simp
  qed
qed

lemma parse_wclc_print_dates:
  assumes "parse_wclc_print page max_n count = Inr rs"
  shows "\<forall>r\<in>set rs. fst r = None"
proof -
  obtain ds where ds: "parse_blocks (blocks_of (tl (re_split month_re page))) max_n count = Inr ds"
    "dedupe_by_date ds = Inr rs"
    using assms by (auto simp: parse_wclc_print_def split: sum.splits)
  have "\<forall>b\<in>set (blocks_of (tl (re_split month_re page))). fst b \<in> set month_names"
    unfolding re_split_def by (rule split_blocks_months)
  then have "\<forall>r\<in>set ds. fst r = None" using parse_blocks_date[OF ds(1)] by blast
  then show ?thesis using dedupe_subset[OF ds(2)] by blast
qed

text \<open>
  Claim C1.  On the page of the scenario, with \<open>max_n = 49\<close> and \<open>count = 6\<close>, the
  print-layout parser returns one record, but not the record of the claim: its date is
  \<^verbatim>\<open>None\<close> (the date substring \<^verbatim>\<open>January 4, 2025\<close> has no weekday, and its comma is removed
  before the only pattern without a weekday, which requires that comma, is tried), and the
  day of the month is read as the first drawn number, which shifts the main numbers and
  the bonus.
\<close>

theorem wclc_scenario:
  "parse_wclc_print scenario_page 49 6 = Inr [(None, [4, 1, 5, 12, 23, 34], Some 47)]"
  by code_simp

text \<open>
  Claim C2.  The print-layout parser never checks the normalized date: every record it
  returns has the date \<^verbatim>\<open>None\<close>, since the date substring it normalizes begins with the
  month name and no pattern of the date normalizer accepts such a text.
\<close>

theorem wclc_dates_none:
  assumes "parse_wclc_print page max_n count = Inr rs"
  shows "list_all (\<lambda>r. fst r = None) rs"
  using parse_wclc_print_dates[OF assms] by (simp add: list_all_iff)

lemma two_draw_eval:
  "parse_wclc_print two_draw_page 49 6 = Inr [(None, [8, 2, 6, 13, 24, 35], Some 48)]"
  by code_simp

theorem wclc_dates_none_witness:
  "parse_wclc_print two_draw_page 49 6 = Inr [(None, [8, 2, 6, 13, 24, 35], Some 48)]
   \<and> re_search (date_re ''January'') ''January 8, 2025 02 06 13 24 35 48 10'' = Some ''January 8, 2025''
   \<and> try_parse_date ''January 8, 2025'' = None
   \<and> list_all (\<lambda>r. fst r = None) [(None :: string option, [8, 2, 6, 13, 24, 35 :: int], Some (48 :: int))]"
proof -
  have 1: "re_search (date_re ''January'') ''January 8, 2025 02 06 13 24 35 48 10'' = Some ''January 8, 2025''"
    by code_simp
  have 2: "try_parse_date ''January 8, 2025'' = None" by code_simp
  show ?thesis using wclc_dates_none[OF two_draw_eval] two_draw_eval 1 2 by simp
qed

text \<open>
  Claim C3, as stated, fails for the print-layout parser: a number that occurs twice in
  a block is kept twice.  On the page below the day of the month, 4, and the first number
  of the draw, 04, both enter the main numbers.
\<close>

theorem print_layout_repeats_counterexample:
  "(1::int) \<le> 6 \<and> (6::int) < 49
   \<and> parse_wclc_print repeat_page 49 6 = Inr [(None, [4, 4, 5, 12, 23, 34], Some 47)]
   \<and> \<not> distinct [4, 4, 5, 12, 23, 34 :: int]"
  by code_simp

lemma tables_eval:
  "parse_generic_tables scenario_tables 49 6
     = Inr [(Some ''2025-01-04'', [4, 1, 5, 12, 23, 34], Some 47)]"
  by code_simp

theorem parsers_main_numbers_witness:
  "(1::int) \<le> 6
   \<and> parse_wclc_print repeat_page 49 6 = Inr [(None, [4, 4, 5, 12, 23, 34], Some 47)]
   \<and> list_all (main_ok 49 6) [(None, [4, 4, 5, 12, 23, 34], Some 47)]
   \<and> parse_generic_tables scenario_tables 49 6
       = Inr [(Some ''2025-01-04'', [4, 1, 5, 12, 23, 34], Some 47)]
   \<and> list_all (main_ok 49 6) [(Some ''2025-01-04'', [4, 1, 5, 12, 23, 34], Some 47)]
   \<and> list_all main_distinct [(Some ''2025-01-04'', [4, 1, 5, 12, 23, 34], Some 47)]"
proof -
  have 1: "parse_wclc_print repeat_page 49 6 = Inr [(None, [4, 4, 5, 12, 23, 34], Some 47)]"
    by code_simp
  show ?thesis
    using parsers_main_numbers[of 6 repeat_page 49 "[(None, [4, 4, 5, 12, 23, 34], Some 47)]"
        scenario_tables "[(Some ''2025-01-04'', [4, 1, 5, 12, 23, 34], Some 47)]"]
      1 tables_eval
    by simp
qed

subsection \<open>Source fallback fetcher\<close>

text \<open>
  The records of a group all come from one parser: the print-layout parser, whose
  records all have the date \<^verbatim>\<open>None\<close>, or the table parser, whose records all have a date.
  So the deduplication of a group's records compares no \<^verbatim>\<open>None\<close> with a string and
  returns.
\<close>

lemma distinct_single:
  assumes "distinct xs" and "set xs \<subseteq> {a}"
  shows "length xs \<le> 1"
proof -
  have "length xs = card (set xs)" using assms(1) by (simp add: distinct_card)
  also have "\<dots> \<le> card {a}" by (rule card_mono) (use assms(2) in simp_all)
  finally show ?thesis by simp
qed

lemma dedupe_uniform:
  assumes "(\<forall>r\<in>set draws. fst r = None) \<or> (\<forall>r\<in>set draws. fst r \<noteq> None)"
  shows "\<exists>rs. dedupe_by_date draws = Inr rs"
proof -
  let ?uniq = "fold (\<lambda>(d, main, bonus) u. AList.update d (main, bonus) u) draws []"
  have sub: "set ?uniq \<subseteq> set draws" using dedupe_fold_entries[of draws "[]"] by simp
  have dist: "distinct (map fst ?uniq)" by (rule dedupe_fold_distinct) simp
  have "\<not> (2 \<le> length (map fst ?uniq) \<and> None \<in> set (map fst ?uniq))"
  proof (cases "\<forall>r\<in>set draws. fst r = None")
    case True
    then have "set (map fst ?uniq) \<subseteq> {None}" using sub by auto
    then have "length (map fst ?uniq) \<le> 1" using dist by (rule distinct_single[rotated])
    then show ?thesis by simp
  next
    case False
    then have a: "\<forall>r\<in>set draws. fst r \<noteq> None" using assms by blast
    have "None \<notin> set (map fst ?uniq)"
    proof
      assume "None \<in> set (map fst ?uniq)"
      then obtain r where r: "r \<in> set ?uniq" "fst r = None" by auto
      then have "r \<in> set draws" using sub by blast
      then show False using a r(2) by blast
    qed
    then show ?thesis by simp
  qed
  then show ?thesis unfolding dedupe_by_date_def Let_def by (simp only: if_False) blast
qed

lemma parse_row_date:
  assumes "parse_row cells max_n count = Inr ds" and "r \<in> set ds"
  shows "fst r \<noteq> None"
proof -
  obtain date_iso nums where
    m: "make_record (Some date_iso) nums count = Inr ds"
    using assms
    by (auto simp: parse_row_def split: if_splits option.splits sum.splits)
  show ?thesis using make_record_date[OF m assms(2)] by simp
qed

lemma parse_rows_date:
  assumes "parse_rows rows max_n count = Inr ds" and "r \<in> set ds"
  shows "fst r \<noteq> None"
  using assms
proof (induction rows arbitrary: ds)
  case Nil
  then show ?case by simp
next
  case (Cons row rows)
  obtain d1 d2 where d: "parse_row row max_n count = Inr d1" "parse_rows rows max_n count = Inr d2"
    "ds = d1 @ d2"
    using Cons.prems(1) by (auto split: sum.splits)
  show ?case
  proof (cases "r \<in> set d1")
    case True
    then show ?thesis using parse_row_date[OF d(1)] by simp
  next
    case False
    then have "r \<in> set d2" using Cons.prems(2) d(3) by simp
    then show ?thesis using Cons.IH[OF d(2)] by simp
  qed
qed

lemma parse_generic_tables_dates:
  assumes "parse_generic_tables tables max_n count = Inr rs"
  shows "\<forall>r\<in>set rs. fst r \<noteq> None"
proof -
  obtain ds where ds: "parse_rows (concat tables) max_n count = Inr ds"
    "dedupe_by_date ds = Inr rs"
    using assms by (auto simp: parse_generic_tables_def split: sum.splits)
  have "\<forall>r\<in>set ds. fst r \<noteq> None" using parse_rows_date[OF ds(1)] by blast
  then show ?thesis using dedupe_subset[OF ds(2)] by blast
qed

lemma fetch_url_dates:
  assumes "r \<in> set (fst (fetch_url e cfg grp k url))"
  shows "(fst r = None) = (g_parser grp = ''wclc'')"
proof (cases "g_parser grp = ''wclc''")
  case True
  obtain sp where "parse_wclc_print (fst sp) (cfg_max_n cfg) (cfg_count cfg)
      = Inr (fst (fetch_url e cfg grp k url))"
    using assms True
    by (auto simp: fetch_url_def split: response.splits if_splits option.splits sum.splits)
  then show ?thesis using parse_wclc_print_dates assms True by blast
next
  case False
  obtain sp where "parse_generic_tables (snd sp) (cfg_max_n cfg) (cfg_count cfg)
      = Inr (fst (fetch_url e cfg grp k url))"
    using assms False
    by (auto simp: fetch_url_def split: response.splits if_splits option.splits sum.splits)
  then show ?thesis using parse_generic_tables_dates assms False by blast
qed

lemma group_records_dates:
  assumes "r \<in> set (group_records e cfg grp n)"
  shows "(fst r = None) = (g_parser grp = ''wclc'')"
proof -
  obtain k url where "r \<in> set (fst (fetch_url e cfg grp k url))"
    using assms unfolding group_records_def by auto
  then show ?thesis by (rule fetch_url_dates)
qed

lemma group_yield_returns: "\<exists>ds. group_yield e cfg grp n = Inr ds"
  unfolding group_yield_def
proof (rule dedupe_uniform)
  show "(\<forall>r\<in>set (group_records e cfg grp n). fst r = None) \<or>
        (\<forall>r\<in>set (group_records e cfg grp n). fst r \<noteq> None)"
    using group_records_dates[of _ e cfg grp n] by (cases "g_parser grp = ''wclc''") blast+
qed

lemma fetch_urls_char:
  "\<exists>evs'. fetch_urls e cfg grp us (a, rq, evs)
     = (a @ concat (map (\<lambda>(k, url). fst (fetch_url e cfg grp k url)) (enumerate (length rq) us)),
        rq @ us, evs')"
proof (induction us arbitrary: a rq evs)
  case Nil
  then show ?case by simp
next
  case (Cons url us)
  obtain parsed ev where f: "fetch_url e cfg grp (length rq) url = (parsed, ev)"
    by (cases "fetch_url e cfg grp (length rq) url")
  obtain evs' where "fetch_urls e cfg grp us (a @ parsed, rq @ [url], evs @ ev)
     = ((a @ parsed) @ concat (map (\<lambda>(k, url). fst (fetch_url e cfg grp k url))
            (enumerate (length (rq @ [url])) us)),
        (rq @ [url]) @ us, evs')"
    using Cons.IH[of "a @ parsed" "rq @ [url]" "evs @ ev"] by blast
  then show ?case by (simp add: f)
qed

lemma fetch_urls_group:
  "\<exists>evs'. fetch_urls e cfg grp (g_urls grp) ([], rq, evs)
     = (group_records e cfg grp (length rq), rq @ g_urls grp, evs')"
  using fetch_urls_char[of e cfg grp "g_urls grp" "[]" rq evs]
  by (simp add: group_records_def)

lemma try_groups_char:
  "\<exists>evs'.
     (\<exists>pre g post ds. groups = pre @ g # post
        \<and> yield_nothing e cfg pre (length rq)
        \<and> group_yield e cfg g (length rq + length (urls_of pre)) = Inr ds \<and> ds \<noteq> []
        \<and> try_groups e cfg groups rq evs = (Inr (ds, g_label g), rq @ urls_of (pre @ [g]), evs'))
     \<or> (yield_nothing e cfg groups (length rq)
        \<and> try_groups e cfg groups rq evs = (Inr ([], ''none''), rq @ urls_of groups, evs'))"
proof (induction groups arbitrary: rq evs)
  case Nil
  show ?case by (simp add: urls_of_def)
next
  case (Cons g groups)
  obtain evs1 where f: "fetch_urls e cfg g (g_urls g) ([], rq, evs)
     = (group_records e cfg g (length rq), rq @ g_urls g, evs1)"
    using fetch_urls_group by blast
  obtain ds where y: "group_yield e cfg g (length rq) = Inr ds"
    using group_yield_returns by blast
  then have d: "dedupe_by_date (group_records e cfg g (length rq)) = Inr ds"
    by (simp add: group_yield_def)
  show ?case
  proof (cases "ds = []")
    case False
    have t: "try_groups e cfg (g # groups) rq evs = (Inr (ds, g_label g), rq @ urls_of ([] @ [g]), evs1)"
      using False by (simp add: f d urls_of_def)
    have "g # groups = [] @ g # groups \<and> yield_nothing e cfg [] (length rq)
        \<and> group_yield e cfg g (length rq + length (urls_of [])) = Inr ds \<and> ds \<noteq> []
        \<and> try_groups e cfg (g # groups) rq evs = (Inr (ds, g_label g), rq @ urls_of ([] @ [g]), evs1)"
      using False y t by (simp add: urls_of_def)
    then show ?thesis by blast
  next
    case True
    have t: "try_groups e cfg (g # groups) rq evs = try_groups e cfg groups (rq @ g_urls g) evs1"
      using True by (simp add: f d)
    have y0: "group_yield e cfg g (length rq) = Inr []" using y True by simp
    obtain evs' where
      ih: "(\<exists>pre g' post ds. groups = pre @ g' # post
        \<and> yield_nothing e cfg pre (length (rq @ g_urls g))
        \<and> group_yield e cfg g' (length (rq @ g_urls g) + length (urls_of pre)) = Inr ds \<and> ds \<noteq> []
        \<and> try_groups e cfg groups (rq @ g_urls g) evs1
            = (Inr (ds, g_label g'), (rq @ g_urls g) @ urls_of (pre @ [g']), evs'))
     \<or> (yield_nothing e cfg groups (length (rq @ g_urls g))
        \<and> try_groups e cfg groups (rq @ g_urls g) evs1
            = (Inr ([], ''none''), (rq @ g_urls g) @ urls_of groups, evs'))"
      using Cons.IH[of "rq @ g_urls g" evs1] by blast
    then show ?thesis
    proof
      assume "\<exists>pre g' post ds. groups = pre @ g' # post
        \<and> yield_nothing e cfg pre (length (rq @ g_urls g))
        \<and> group_yield e cfg g' (length (rq @ g_urls g) + length (urls_of pre)) = Inr ds \<and> ds \<noteq> []
        \<and> try_groups e cfg groups (rq @ g_urls g) evs1
            = (Inr (ds, g_label g'), (rq @ g_urls g) @ urls_of (pre @ [g']), evs')"
      then obtain pre g' post ds' where p: "groups = pre @ g' # post"
        "yield_nothing e cfg pre (length (rq @ g_urls g))"
        "group_yield e cfg g' (length (rq @ g_urls g) + length (urls_of pre)) = Inr ds'" "ds' \<noteq> []"
        "try_groups e cfg groups (rq @ g_urls g) evs1
            = (Inr (ds', g_label g'), (rq @ g_urls g) @ urls_of (pre @ [g']), evs')"
        by blast
      have "g # groups = (g # pre) @ g' # post
        \<and> yield_nothing e cfg (g # pre) (length rq)
        \<and> group_yield e cfg g' (length rq + length (urls_of (g # pre))) = Inr ds' \<and> ds' \<noteq> []
        \<and> try_groups e cfg (g # groups) rq evs
             = (Inr (ds', g_label g'), rq @ urls_of ((g # pre) @ [g']), evs')"
        using p y0 t by (simp add: urls_of_def add.assoc)
      then show ?thesis by blast
    next
      assume "yield_nothing e cfg groups (length (rq @ g_urls g))
        \<and> try_groups e cfg groups (rq @ g_urls g) evs1
            = (Inr ([], ''none''), (rq @ g_urls g) @ urls_of groups, evs')"
      then have "yield_nothing e cfg (g # groups) (length rq)
        \<and> try_groups e cfg (g # groups) rq evs = (Inr ([], ''none''), rq @ urls_of (g # groups), evs')"
        using y0 t by (simp add: urls_of_def)
      then show ?thesis by blast
    qed
  qed
qed

text \<open>
  Claim C5.  For a configured game: when the capability is missing, the fetcher returns
  \<^verbatim>\<open>([], "offline")\<close> and requests no URL.  Otherwise it never raises, and either the
  source groups split into \<open>pre\<close>, \<open>g\<close>, \<open>post\<close> in the configured order, where each group
  of \<open>pre\<close> yields no record, \<open>g\<close> yields the non-empty deduplicated records \<open>ds\<close>, the
  result is \<open>(ds, label of g)\<close> and the URLs requested are those of \<open>pre\<close> and \<open>g\<close> and no
  URL of \<open>post\<close>; or every group yields no record, the result is \<^verbatim>\<open>([], "none")\<close> and the URLs
  of all groups were requested.
\<close>

theorem fallback_first_success:
  assumes "GAMES game_key = Some cfg"
  shows "if \<not> available e
         then fetch_archives_with_fallback e game_key = (Inr ([], ''offline''), [], [])
         else \<exists>evs.
           (\<exists>pre g post ds. cfg_sources cfg = pre @ g # post
              \<and> yield_nothing e cfg pre 0
              \<and> group_yield e cfg g (length (urls_of pre)) = Inr ds \<and> ds \<noteq> []
              \<and> fetch_archives_with_fallback e game_key
                   = (Inr (ds, g_label g), urls_of (pre @ [g]), evs))
           \<or> (yield_nothing e cfg (cfg_sources cfg) 0
              \<and> fetch_archives_with_fallback e game_key
                   = (Inr ([], ''none''), urls_of (cfg_sources cfg), evs))"
proof (cases "available e")
  case False
  then show ?thesis by (simp add: fetch_archives_with_fallback_def assms)
next
  case True
  have f: "fetch_archives_with_fallback e game_key = try_groups e cfg (cfg_sources cfg) [] []"
    using True by (simp add: fetch_archives_with_fallback_def assms)
  show ?thesis using True try_groups_char[of "cfg_sources cfg" e cfg "[]" "[]"]
    unfolding f by simp
qed

theorem fallback_first_success_witness:
  "GAMES ''Lotto 6/49'' = Some lotto_649
   \<and> available ex_env
   \<and> (\<exists>evs.
        (\<exists>pre g post ds. cfg_sources lotto_649 = pre @ g # post
           \<and> yield_nothing ex_env lotto_649 pre 0
           \<and> group_yield ex_env lotto_649 g (length (urls_of pre)) = Inr ds \<and> ds \<noteq> []
           \<and> fetch_archives_with_fallback ex_env ''Lotto 6/49''
                = (Inr (ds, g_label g), urls_of (pre @ [g]), evs))
        \<or> (yield_nothing ex_env lotto_649 (cfg_sources lotto_649) 0
           \<and> fetch_archives_with_fallback ex_env ''Lotto 6/49''
                = (Inr ([], ''none''), urls_of (cfg_sources lotto_649), evs)))
   \<and> fetch_archives_with_fallback ex_env ''Lotto 6/49''
       = (Inr ([(Some ''2025-01-04'', [4, 1, 5, 12, 23, 34], Some 47)], ''OLG''),
          urls_of (take 2 (cfg_sources lotto_649)),
          [Skip ''WCLC'' ''https://www.wclc.com/winning-numbers/lotto-649-extra.htm?channel=print'' 404,
           Error_msg ''WCLC''
             ''https://www.wclc.com/winning-numbers/lotto-649-extra.htm?channel=print&printMode=true'',
           Parsed ''OLG'' 1 ''host'', Parsed ''OLG'' 0 ''host''])"
proof -
  have g: "GAMES ''Lotto 6/49'' = Some lotto_649" by (simp add: GAMES_def)
  have a: "available ex_env" by (simp add: ex_env_def)
  have t: "\<exists>evs.
        (\<exists>pre g post ds. cfg_sources lotto_649 = pre @ g # post
           \<and> yield_nothing ex_env lotto_649 pre 0
           \<and> group_yield ex_env lotto_649 g (length (urls_of pre)) = Inr ds \<and> ds \<noteq> []
           \<and> fetch_archives_with_fallback ex_env ''Lotto 6/49''
                = (Inr (ds, g_label g), urls_of (pre @ [g]), evs))
        \<or> (yield_nothing ex_env lotto_649 (cfg_sources lotto_649) 0
           \<and> fetch_archives_with_fallback ex_env ''Lotto 6/49''
                = (Inr ([], ''none''), urls_of (cfg_sources lotto_649), evs))"
    using fallback_first_success[OF g, of ex_env] a by simp
  have r: "fetch_archives_with_fallback ex_env ''Lotto 6/49''
       = (Inr ([(Some ''2025-01-04'', [4, 1, 5, 12, 23, 34], Some 47)], ''OLG''),
          urls_of (take 2 (cfg_sources lotto_649)),
          [Skip ''WCLC'' ''https://www.wclc.com/winning-numbers/lotto-649-extra.htm?channel=print'' 404,
           Error_msg ''WCLC''
             ''https://www.wclc.com/winning-numbers/lotto-649-extra.htm?channel=print&printMode=true'',
           Parsed ''OLG'' 1 ''host'', Parsed ''OLG'' 0 ''host''])"
    by code_simp
  show ?thesis by (intro conjI) (rule g a t r)+
qed

end
